theory Spec2Isabelle
  imports Main "HOL-Library.AList"
begin

section \<open>The automaton engine of r11.py\<close>

text \<open>
  The engine is the class \<^verbatim>\<open>Automaton\<close> together with the data part of
  \<^verbatim>\<open>StateItem\<close> (name, the two flags and the transition table). State items are
  objects shared between the automaton's state mapping and its callers, so they live in
  an explicit store: a reference is a number and the store maps each reference to the
  item's current fields. Python dictionaries keep insertion order, which
  \<^verbatim>\<open>save_automaton\<close> exposes, so they are association lists updated with
  \<open>AList.update\<close> (replace in place, else append); a lookup is \<open>map_of\<close>.
  A Python string is a \<open>string\<close>; iterating over it yields one-character strings, so
  the character \<open>c\<close> of an input is looked up under the key \<open>[c]\<close>.
\<close>

type_synonym ref = nat

record StateItem =
  name :: string
  is_accept :: bool
  is_start :: bool
  transitions :: "(string \<times> string list) list"

type_synonym heap = "ref \<Rightarrow> StateItem"

record Automaton =
  states :: "(string \<times> ref) list"
  start_state :: "string option"
  accept_states :: "string set"
  is_dfa :: bool

datatype py_error = KeyError | IndexError

text \<open>\<^verbatim>\<open>StateItem.__init__\<close>: both flags false, no transitions.\<close>

definition StateItem_init :: "string \<Rightarrow> StateItem" where
  "StateItem_init n = \<lparr>name = n, is_accept = False, is_start = False, transitions = []\<rparr>"

text \<open>\<^verbatim>\<open>Automaton.__init__\<close>.\<close>

definition Automaton_init :: "bool \<Rightarrow> Automaton" where
  "Automaton_init d = \<lparr>states = [], start_state = None, accept_states = {}, is_dfa = d\<rparr>"

text \<open>\<^verbatim>\<open>StateItem.set_start\<close> and \<^verbatim>\<open>StateItem.set_accept\<close> (the repaint is not modelled).\<close>

definition StateItem_set_start :: "heap \<Rightarrow> ref \<Rightarrow> bool \<Rightarrow> heap" where
  "StateItem_set_start h r b = h(r := (h r)\<lparr>is_start := b\<rparr>)"

definition StateItem_set_accept :: "heap \<Rightarrow> ref \<Rightarrow> bool \<Rightarrow> heap" where
  "StateItem_set_accept h r b = h(r := (h r)\<lparr>is_accept := b\<rparr>)"

text \<open>
  Python truth value of \<^verbatim>\<open>self.start_state\<close>: \<^verbatim>\<open>None\<close> and the empty string are
  false, every other string is true.
\<close>

definition truthy :: "string option \<Rightarrow> bool" where
  "truthy s = (case s of None \<Rightarrow> False | Some n \<Rightarrow> n \<noteq> [])"

text \<open>\<^verbatim>\<open>Automaton.add_state\<close>: \<^verbatim>\<open>self.states[state.name] = state\<close>.\<close>

definition add_state :: "heap \<Rightarrow> Automaton \<Rightarrow> ref \<Rightarrow> Automaton" where
  "add_state h a state = a\<lparr>states := AList.update (name (h state)) state (states a)\<rparr>"

text \<open>
  \<^verbatim>\<open>Automaton.set_start\<close>: the previous start item is found through the mapping by
  the recorded name, and cleared only when that name is true, differs from the new
  name and is a key of the mapping.
\<close>

definition set_start :: "heap \<Rightarrow> Automaton \<Rightarrow> ref \<Rightarrow> heap \<times> Automaton" where
  "set_start h a state =
     (let h1 = (if truthy (start_state a) \<and> start_state a \<noteq> Some (name (h state))
                then (case map_of (states a) (the (start_state a)) of
                        None \<Rightarrow> h
                      | Some old_start \<Rightarrow> StateItem_set_start h old_start False)
                else h);
          a1 = a\<lparr>start_state := Some (name (h1 state))\<rparr>
      in (StateItem_set_start h1 state True, a1))"

text \<open>\<^verbatim>\<open>Automaton.set_accept\<close>.\<close>

definition set_accept :: "heap \<Rightarrow> Automaton \<Rightarrow> ref \<Rightarrow> heap \<times> Automaton" where
  "set_accept h a state =
     (let h1 = StateItem_set_accept h state True
      in (h1, a\<lparr>accept_states := insert (name (h1 state)) (accept_states a)\<rparr>))"

text \<open>
  \<^verbatim>\<open>Automaton.add_transition\<close>: it touches only the transition table of
  \<^verbatim>\<open>from_state\<close>; an absent symbol first gets the empty list, then the target's name is
  appended unless it is already in the list.
\<close>

definition add_transition :: "heap \<Rightarrow> ref \<Rightarrow> string \<Rightarrow> ref \<Rightarrow> heap" where
  "add_transition h from_state symbol to_state =
     (let trans = transitions (h from_state);
          trans1 = (if map_of trans symbol = None then AList.update symbol [] trans else trans);
          targets = (case map_of trans1 symbol of None \<Rightarrow> [] | Some ts \<Rightarrow> ts);
          trans2 = (if name (h to_state) \<in> set targets then trans1
                    else AList.update symbol (targets @ [name (h to_state)]) trans1)
      in h(from_state := (h from_state)\<lparr>transitions := trans2\<rparr>))"

subsection \<open>simulate\<close>

text \<open>
  The DFA loop. \<^verbatim>\<open>self.states.get(current)\<close> is \<open>map_of\<close>; a missing state or a
  missing symbol returns \<^verbatim>\<open>False\<close>; \<^verbatim>\<open>state.transitions[char][0]\<close> raises
  \<^verbatim>\<open>IndexError\<close> on an empty list.
\<close>

fun dfa_loop :: "heap \<Rightarrow> Automaton \<Rightarrow> string \<Rightarrow> string \<Rightarrow> py_error + bool" where
  "dfa_loop h a current [] = Inr (current \<in> accept_states a)"
| "dfa_loop h a current (c # cs) =
     (case map_of (states a) current of
        None \<Rightarrow> Inr False
      | Some state \<Rightarrow>
          (case map_of (transitions (h state)) [c] of
             None \<Rightarrow> Inr False
           | Some [] \<Rightarrow> Inl IndexError
           | Some (t # ts) \<Rightarrow> dfa_loop h a t cs))"

text \<open>
  One round of the NFA loop for one character. \<^verbatim>\<open>self.states[state_name]\<close> raises
  \<^verbatim>\<open>KeyError\<close> for a name of the frontier that is not a key of the mapping; the order in
  which the set is iterated does not change whether that happens.
\<close>

definition nfa_targets :: "heap \<Rightarrow> Automaton \<Rightarrow> string \<Rightarrow> string \<Rightarrow> string set" where
  "nfa_targets h a symbol state_name =
     (case map_of (states a) state_name of
        None \<Rightarrow> {}
      | Some state \<Rightarrow>
          (case map_of (transitions (h state)) symbol of None \<Rightarrow> {} | Some ts \<Rightarrow> set ts))"

definition nfa_step :: "heap \<Rightarrow> Automaton \<Rightarrow> string set \<Rightarrow> string \<Rightarrow> py_error + string set" where
  "nfa_step h a current_states symbol =
     (if \<exists>state_name \<in> current_states. map_of (states a) state_name = None
      then Inl KeyError
      else Inr (\<Union>state_name \<in> current_states. nfa_targets h a symbol state_name))"

fun nfa_loop :: "heap \<Rightarrow> Automaton \<Rightarrow> string set \<Rightarrow> string \<Rightarrow> py_error + string set" where
  "nfa_loop h a current_states [] = Inr current_states"
| "nfa_loop h a current_states (c # cs) =
     (case nfa_step h a current_states [c] of
        Inl e \<Rightarrow> Inl e
      | Inr next_states \<Rightarrow> nfa_loop h a next_states cs)"

text \<open>\<^verbatim>\<open>Automaton.simulate\<close>.\<close>

definition simulate :: "heap \<Rightarrow> Automaton \<Rightarrow> string \<Rightarrow> py_error + bool" where
  "simulate h a input_str =
     (if \<not> truthy (start_state a) then Inr False
      else if is_dfa a then dfa_loop h a (the (start_state a)) input_str
      else (case nfa_loop h a {the (start_state a)} input_str of
              Inl e \<Rightarrow> Inl e
            | Inr current_states \<Rightarrow> Inr (\<exists>s \<in> current_states. s \<in> accept_states a)))"

subsection \<open>Automata built by the engine\<close>

text \<open>
  Every automaton of the program is made by \<^verbatim>\<open>Automaton(is_dfa)\<close> followed by calls of
  the four mutators on state items that were fresh when created. A call sequence is a
  list of operations; \<open>build names d ops\<close> runs it from the empty automaton over a store
  of fresh items, item \<open>r\<close> having the name \<open>names r\<close>.
\<close>

datatype op =
    AddState ref
  | SetStart ref
  | SetAccept ref
  | AddTransition ref string ref

fun apply_op :: "heap \<times> Automaton \<Rightarrow> op \<Rightarrow> heap \<times> Automaton" where
  "apply_op (h, a) (AddState r) = (h, add_state h a r)"
| "apply_op (h, a) (SetStart r) = set_start h a r"
| "apply_op (h, a) (SetAccept r) = set_accept h a r"
| "apply_op (h, a) (AddTransition f symbol t) = (add_transition h f symbol t, a)"

definition fresh_heap :: "(ref \<Rightarrow> string) \<Rightarrow> heap" where
  "fresh_heap names = (\<lambda>r. StateItem_init (names r))"

definition build :: "(ref \<Rightarrow> string) \<Rightarrow> bool \<Rightarrow> op list \<Rightarrow> heap \<times> Automaton" where
  "build names d ops = foldl apply_op (fresh_heap names, Automaton_init d) ops"

subsection \<open>Properties of transition tables\<close>

text \<open>No target list of any state item holds a name twice.\<close>

definition no_duplicate_targets :: "heap \<Rightarrow> bool" where
  "no_duplicate_targets h =
     (\<forall>r symbol ts. map_of (transitions (h r)) symbol = Some ts \<longrightarrow> distinct ts)"

text \<open>Every symbol that is a key of a transition table maps to a non-empty list.\<close>

definition nonempty_targets :: "heap \<Rightarrow> bool" where
  "nonempty_targets h =
     (\<forall>r symbol ts. map_of (transitions (h r)) symbol = Some ts \<longrightarrow> ts \<noteq> [])"

text \<open>
  The list \<^verbatim>\<open>add_transition\<close> leaves under its symbol, given the old entry \<open>old\<close> and
  the target's name \<open>n\<close>.
\<close>

definition appended :: "string list option \<Rightarrow> string \<Rightarrow> string list" where
  "appended old n = (case old of None \<Rightarrow> [n] | Some ts \<Rightarrow> if n \<in> set ts then ts else ts @ [n])"

subsection \<open>The DFA walk as the specification words it\<close>

text \<open>
  The specification's DFA mode, written from its sentences and not from the code: the
  walk starts at the start state; a state without a transition entry for the character
  rejects at once; otherwise the walk moves to the entry of index 0 of the symbol's
  target list; at the end of the input the walk accepts exactly when the current name is
  in \<^verbatim>\<open>accept_states\<close>.
\<close>

definition spec_transition_entry :: "heap \<Rightarrow> Automaton \<Rightarrow> string \<Rightarrow> char \<Rightarrow> string list option" where
  "spec_transition_entry h a q c =
     (case map_of (states a) q of None \<Rightarrow> None | Some state \<Rightarrow> map_of (transitions (h state)) [c])"

fun spec_dfa_accepts :: "heap \<Rightarrow> Automaton \<Rightarrow> string \<Rightarrow> string \<Rightarrow> bool" where
  "spec_dfa_accepts h a q [] = (q \<in> accept_states a)"
| "spec_dfa_accepts h a q (c # cs) =
     (case spec_transition_entry h a q c of
        None \<Rightarrow> False
      | Some ts \<Rightarrow> spec_dfa_accepts h a (ts ! 0) cs)"

subsection \<open>A concrete automaton\<close>

text \<open>
  The two-state DFA of the specification's examples: \<open>q0\<close> is the start state, \<open>q1\<close>
  accepts, \<open>q0\<close> goes to \<open>q1\<close> on \<open>a\<close> and \<open>q1\<close> to itself on \<open>b\<close>.
\<close>

definition ex_names :: "ref \<Rightarrow> string" where
  "ex_names r = (if r = 0 then ''q0'' else if r = 1 then ''q1'' else ''q2'')"

definition ex_ops :: "op list" where
  "ex_ops = [AddState 0, AddState 1, SetStart 0, SetAccept 1,
             AddTransition 0 ''a'' 1, AddTransition 1 ''b'' 1]"

subsection \<open>The NFA frontier as the specification words it\<close>

text \<open>
  The specification's NFA mode, written from its sentences: the frontier starts as the
  singleton of the start state; for a character the next frontier is the union, over the
  names of the frontier, of the target list of that name's state for the character, a
  name without such a list contributing nothing; the input is accepted exactly when a
  name of the final frontier is in \<^verbatim>\<open>accept_states\<close>.
\<close>

definition spec_nfa_next :: "heap \<Rightarrow> Automaton \<Rightarrow> string set \<Rightarrow> char \<Rightarrow> string set" where
  "spec_nfa_next h a frontier c =
     (\<Union>q \<in> frontier. case spec_transition_entry h a q c of None \<Rightarrow> {} | Some ts \<Rightarrow> set ts)"

fun spec_nfa_frontier :: "heap \<Rightarrow> Automaton \<Rightarrow> string set \<Rightarrow> string \<Rightarrow> string set" where
  "spec_nfa_frontier h a frontier [] = frontier"
| "spec_nfa_frontier h a frontier (c # cs) = spec_nfa_frontier h a (spec_nfa_next h a frontier c) cs"

definition spec_nfa_accepts :: "heap \<Rightarrow> Automaton \<Rightarrow> string \<Rightarrow> string \<Rightarrow> bool" where
  "spec_nfa_accepts h a q s = (\<exists>n \<in> spec_nfa_frontier h a {q} s. n \<in> accept_states a)"

text \<open>
  Two call sequences in which \<^verbatim>\<open>add_transition\<close> is given a target item that was never
  passed to \<^verbatim>\<open>add_state\<close>: the specification's NFA example (\<open>q0\<close> goes to \<open>q1\<close> and
  \<open>q2\<close> on \<open>a\<close>, \<open>q1\<close> accepts) with \<open>q2\<close> left out of the mapping, and a one-state
  automaton whose only transition leaves the mapping.
\<close>

definition nfa_ops :: "op list" where
  "nfa_ops = [AddState 0, AddState 1, SetStart 0, SetAccept 1,
              AddTransition 0 ''a'' 1, AddTransition 0 ''a'' 2]"

definition dangling_ops :: "op list" where
  "dangling_ops = [AddState 0, SetStart 0, AddTransition 0 ''a'' 1]"

subsection \<open>The start flag\<close>

text \<open>At most one state item of the automaton's mapping has \<^verbatim>\<open>is_start\<close> set.\<close>

definition at_most_one_start :: "heap \<Rightarrow> Automaton \<Rightarrow> bool" where
  "at_most_one_start h a =
     (\<forall>n1 r1 n2 r2. map_of (states a) n1 = Some r1 \<and> map_of (states a) n2 = Some r2
        \<and> is_start (h r1) \<and> is_start (h r2) \<longrightarrow> r1 = r2)"

text \<open>
  The calls a validating caller makes, as the interactive front end does: \<^verbatim>\<open>add_state\<close>
  only with a name that is not yet a key of the mapping, \<^verbatim>\<open>set_start\<close> only on an item
  with a non-empty name that the mapping holds under that name.
\<close>

fun op_ok :: "heap \<times> Automaton \<Rightarrow> op \<Rightarrow> bool" where
  "op_ok (h, a) (AddState r) = (map_of (states a) (name (h r)) = None)"
| "op_ok (h, a) (SetStart r) = (name (h r) \<noteq> [] \<and> map_of (states a) (name (h r)) = Some r)"
| "op_ok (h, a) (SetAccept r) = True"
| "op_ok (h, a) (AddTransition f symbol t) = True"

fun ops_ok :: "heap \<times> Automaton \<Rightarrow> op list \<Rightarrow> bool" where
  "ops_ok w [] = True"
| "ops_ok w (x # xs) = (op_ok w x \<and> ops_ok (apply_op w x) xs)"

text \<open>
  The invariant behind exclusivity: every item whose flag is set, anywhere in the store,
  is the one the mapping holds under the recorded start name, and that name is not empty.
\<close>

definition start_inv :: "heap \<Rightarrow> Automaton \<Rightarrow> bool" where
  "start_inv h a =
     ((\<forall>r. is_start (h r) \<longrightarrow>
           start_state a = Some (name (h r)) \<and> map_of (states a) (name (h r)) = Some r)
      \<and> start_state a \<noteq> Some [])"

text \<open>\<open>cleared h a r x\<close>: the call \<^verbatim>\<open>set_start\<close> on \<open>r\<close> resets the flag of \<open>x\<close>.\<close>

definition cleared :: "heap \<Rightarrow> Automaton \<Rightarrow> ref \<Rightarrow> ref \<Rightarrow> bool" where
  "cleared h a r x =
     (truthy (start_state a) \<and> start_state a \<noteq> Some (name (h r))
      \<and> map_of (states a) (the (start_state a)) = Some x)"

text \<open>
  Call sequences for the start flag: two states added and then made start one after the
  other; the same with the calls of \<^verbatim>\<open>set_start\<close> before those of \<^verbatim>\<open>add_state\<close>;
  and a naming in which the first state has the empty name.
\<close>

definition ordered_ops :: "op list" where
  "ordered_ops = [AddState 0, AddState 1, SetStart 0, SetStart 1]"

definition unadded_ops :: "op list" where
  "unadded_ops = [SetStart 0, SetStart 1, AddState 0, AddState 1]"

definition empty_names :: "ref \<Rightarrow> string" where
  "empty_names r = (if r = 0 then [] else ''q1'')"

subsection \<open>Saving and loading\<close>

text \<open>
  The record written by \<^verbatim>\<open>save_automaton\<close> and read by \<^verbatim>\<open>load_automaton\<close>: the keys
  \<^verbatim>\<open>states\<close>, \<^verbatim>\<open>start\<close>, \<^verbatim>\<open>accept\<close> and \<^verbatim>\<open>transitions\<close> of the JSON object. JSON
  keeps strings, lists, \<^verbatim>\<open>null\<close> and the order of an object's keys, so the file itself
  is not modelled.
\<close>

record SavedAutomaton =
  saved_states :: "string list"
  saved_start :: "string option"
  saved_accept :: "string list"
  saved_transitions :: "(string \<times> (string \<times> string list) list) list"

text \<open>
  \<^verbatim>\<open>save_automaton\<close>, after the file dialog. \<open>accept_order\<close> is
  \<^verbatim>\<open>list(self.automaton.accept_states)\<close>: the elements of the set in the order in which
  the interpreter iterates over it. The dictionary comprehension inserts the table of
  every state of the mapping under the state's own name.
\<close>

definition save_automaton :: "heap \<Rightarrow> Automaton \<Rightarrow> string list \<Rightarrow> SavedAutomaton" where
  "save_automaton h a accept_order =
     \<lparr>saved_states = map fst (states a),
      saved_start = start_state a,
      saved_accept = accept_order,
      saved_transitions =
        foldl (\<lambda>d (k, s). AList.update (name (h s)) (transitions (h s)) d) [] (states a)\<rparr>"

text \<open>
  \<^verbatim>\<open>load_automaton\<close>, after the file has been read. The automaton is a new one in DFA
  mode, and the state items are new objects: item \<open>i\<close> is the one made for the \<open>i\<close>-th
  name of the record.
\<close>

definition item_names :: "string list \<Rightarrow> ref \<Rightarrow> string" where
  "item_names ns i = (if i < length ns then ns ! i else [])"

definition load_states :: "string list \<Rightarrow> heap \<times> Automaton" where
  "load_states ns =
     foldl (\<lambda>(h, a) i. (h, add_state h a i))
       (fresh_heap (item_names ns), Automaton_init True) [0..<length ns]"

text \<open>\<^verbatim>\<open>self.automaton.states[...]\<close> raises \<^verbatim>\<open>KeyError\<close> for a name that is not a key.\<close>

definition load_start :: "string option \<Rightarrow> heap \<times> Automaton \<Rightarrow> py_error + heap \<times> Automaton" where
  "load_start st w =
     (if truthy st
      then (case map_of (states (snd w)) (the st) of
              None \<Rightarrow> Inl KeyError
            | Some state \<Rightarrow> Inr (set_start (fst w) (snd w) state))
      else Inr w)"

fun load_accept :: "string list \<Rightarrow> heap \<times> Automaton \<Rightarrow> py_error + heap \<times> Automaton" where
  "load_accept [] w = Inr w"
| "load_accept (n # ns) w =
     (case map_of (states (snd w)) n of
        None \<Rightarrow> Inl KeyError
      | Some state \<Rightarrow> load_accept ns (set_accept (fst w) (snd w) state))"

text \<open>The three nested loops over the transitions; unknown names are skipped.\<close>

fun load_targets :: "ref \<Rightarrow> string \<Rightarrow> string list \<Rightarrow> heap \<times> Automaton \<Rightarrow> heap \<times> Automaton" where
  "load_targets from_obj symbol [] w = w"
| "load_targets from_obj symbol (to_name # to_list) w =
     (case map_of (states (snd w)) to_name of
        None \<Rightarrow> load_targets from_obj symbol to_list w
      | Some to_obj \<Rightarrow>
          load_targets from_obj symbol to_list
            (add_transition (fst w) from_obj symbol to_obj, snd w))"

fun load_symbols :: "ref \<Rightarrow> (string \<times> string list) list \<Rightarrow> heap \<times> Automaton \<Rightarrow> heap \<times> Automaton" where
  "load_symbols from_obj [] w = w"
| "load_symbols from_obj ((symbol, to_list) # table) w =
     load_symbols from_obj table (load_targets from_obj symbol to_list w)"

fun load_transitions ::
  "(string \<times> (string \<times> string list) list) list \<Rightarrow> heap \<times> Automaton \<Rightarrow> heap \<times> Automaton" where
  "load_transitions [] w = w"
| "load_transitions ((from_state, table) # rest) w =
     (case map_of (states (snd w)) from_state of
        None \<Rightarrow> load_transitions rest w
      | Some from_obj \<Rightarrow> load_transitions rest (load_symbols from_obj table w))"

definition load_automaton :: "SavedAutomaton \<Rightarrow> py_error + heap \<times> Automaton" where
  "load_automaton data =
     (case load_start (saved_start data) (load_states (saved_states data)) of
        Inl e \<Rightarrow> Inl e
      | Inr w1 \<Rightarrow>
          (case load_accept (saved_accept data) w1 of
             Inl e \<Rightarrow> Inl e
           | Inr w2 \<Rightarrow> Inr (load_transitions (saved_transitions data) w2)))"

subsection \<open>Well-formedness and the loaded automaton\<close>

text \<open>
  Every state item of the mapping is stored under its own name.
\<close>

definition name_keyed :: "heap \<Rightarrow> Automaton \<Rightarrow> bool" where
  "name_keyed h a = (\<forall>k r. map_of (states a) k = Some r \<longrightarrow> name (h r) = k)"

text \<open>
  No dictionary has a key twice: the association lists are Python dictionaries.
\<close>

definition distinct_keys :: "heap \<Rightarrow> Automaton \<Rightarrow> bool" where
  "distinct_keys h a =
     (distinct (map fst (states a)) \<and> (\<forall>r. distinct (map fst (transitions (h r)))))"

text \<open>
  What holds of every automaton the engine builds.
\<close>

definition built_inv :: "heap \<Rightarrow> Automaton \<Rightarrow> bool" where
  "built_inv h a =
     (name_keyed h a \<and> distinct_keys h a \<and> nonempty_targets h \<and> no_duplicate_targets h)"

text \<open>
  The automaton names only states it holds: the start name (when it is set), every accept
  name and every target of a transition of a state of the mapping are keys of the mapping.
  The interactive front end keeps this: it marks and connects only states it has added.
\<close>

definition names_mapped :: "heap \<Rightarrow> Automaton \<Rightarrow> bool" where
  "names_mapped h a =
     ((truthy (start_state a) \<longrightarrow> map_of (states a) (the (start_state a)) \<noteq> None)
      \<and> (\<forall>n. n \<in> accept_states a \<longrightarrow> map_of (states a) n \<noteq> None)
      \<and> (\<forall>k r symbol ts t. map_of (states a) k = Some r
            \<and> map_of (transitions (h r)) symbol = Some ts \<and> t \<in> set ts
            \<longrightarrow> map_of (states a) t \<noteq> None))"

text \<open>
  The automaton \<^verbatim>\<open>load_automaton\<close> has built from the names \<open>ns\<close> before it reads the transitions:
  item \<open>i\<close> carries the \<open>i\<close>-th name and an empty table, and the keys of the mapping are the
  names, each leading to an item of that name.
\<close>

definition loaded_base :: "string list \<Rightarrow> heap \<times> Automaton \<Rightarrow> bool" where
  "loaded_base ns w =
     ((\<forall>i. name (fst w i) = item_names ns i) \<and> (\<forall>i. transitions (fst w i) = [])
      \<and> is_dfa (snd w)
      \<and> (\<forall>k i. map_of (states (snd w)) k = Some i \<longrightarrow> i < length ns \<and> ns ! i = k)
      \<and> (\<forall>k. k \<in> set ns \<longrightarrow> map_of (states (snd w)) k \<noteq> None))"

text \<open>
  The target list of a state for a symbol, empty when the symbol is not a key.
\<close>

definition current_targets :: "heap \<Rightarrow> ref \<Rightarrow> string \<Rightarrow> string list" where
  "current_targets h f symbol =
     (case map_of (transitions (h f)) symbol of None \<Rightarrow> [] | Some ts \<Rightarrow> ts)"

text \<open>
  A saved transition table that \<^verbatim>\<open>load_automaton\<close> rebuilds entry by entry: no symbol twice,
  every list non-empty and without duplicates, every target a key of the loaded mapping.
\<close>

definition table_ok :: "Automaton \<Rightarrow> (string \<times> string list) list \<Rightarrow> bool" where
  "table_ok a table =
     (distinct (map fst table)
      \<and> (\<forall>symbol ts. (symbol, ts) \<in> set table \<longrightarrow>
            ts \<noteq> [] \<and> distinct ts \<and> (\<forall>t \<in> set ts. map_of (states a) t \<noteq> None)))"

text \<open>
  Loading a record and then simulating an input on the loaded automaton, as the window
  does; an exception raised while loading is the result.
\<close>

definition simulate_loaded :: "SavedAutomaton \<Rightarrow> string \<Rightarrow> py_error + (py_error + bool)" where
  "simulate_loaded data s =
     (case load_automaton data of Inl e \<Rightarrow> Inl e | Inr (h, a) \<Rightarrow> Inr (simulate h a s))"

text \<open>
  Call sequences for saving and loading: an NFA whose second target accepts; a DFA whose
  first target for \<open>a\<close> was never added to the mapping; an automaton with an accept state
  that was never added.
\<close>

definition nfa_all_ops :: "op list" where
  "nfa_all_ops = [AddState 0, AddState 1, AddState 2, SetStart 0, SetAccept 2,
                  AddTransition 0 ''a'' 1, AddTransition 0 ''a'' 2]"

definition dangling_first_ops :: "op list" where
  "dangling_first_ops = [AddState 0, AddState 1, SetStart 0, SetAccept 1,
                         AddTransition 0 ''a'' 2, AddTransition 0 ''a'' 1]"

definition unmapped_accept_ops :: "op list" where
  "unmapped_accept_ops = [AddState 0, SetStart 0, SetAccept 1]"

section \<open>Evaluation and helper lemmas\<close>

lemmas engine_defs =
  build_def fresh_heap_def Automaton_init_def StateItem_init_def add_state_def set_start_def
  set_accept_def add_transition_def StateItem_set_start_def StateItem_set_accept_def truthy_def
  simulate_def nfa_step_def nfa_targets_def ex_names_def ex_ops_def

lemma add_transition_lookup:
  "map_of (transitions (add_transition h f symbol t r)) symbol' =
     (if r = f \<and> symbol' = symbol
      then Some (appended (map_of (transitions (h f)) symbol) (name (h t)))
      else map_of (transitions (h r)) symbol')"
  by (auto simp: add_transition_def Let_def AList.update_conv' appended_def split: option.splits)

lemma add_transition_fields [simp]:
  "name (add_transition h f symbol t r) = name (h r)"
  "is_start (add_transition h f symbol t r) = is_start (h r)"
  "is_accept (add_transition h f symbol t r) = is_accept (h r)"
  by (simp_all add: add_transition_def Let_def)

lemma add_transition_twice:
  "add_transition (add_transition h f symbol t) f symbol t = add_transition h f symbol t"
  by (auto simp: add_transition_def Let_def AList.update_conv' split: option.splits)

lemma appended_distinct: "(\<And>ts. old = Some ts \<Longrightarrow> distinct ts) \<Longrightarrow> distinct (appended old n)"
  by (cases old) (simp_all add: appended_def)

lemma appended_nonempty: "appended old n \<noteq> []"
  by (cases old) (auto simp: appended_def)

lemma appended_member: "n \<in> set (appended old n)"
  by (cases old) (simp_all add: appended_def)

lemma add_transition_no_dup:
  assumes "no_duplicate_targets h"
  shows "no_duplicate_targets (add_transition h f symbol t)"
  unfolding no_duplicate_targets_def
proof (intro allI impI)
  fix r symbol' ts
  assume look: "map_of (transitions (add_transition h f symbol t r)) symbol' = Some ts"
  show "distinct ts"
  proof (cases "r = f \<and> symbol' = symbol")
    case True
    with look have "ts = appended (map_of (transitions (h f)) symbol) (name (h t))"
      by (simp add: add_transition_lookup)
    moreover have "distinct (appended (map_of (transitions (h f)) symbol) (name (h t)))"
      using assms unfolding no_duplicate_targets_def by (intro appended_distinct) blast
    ultimately show ?thesis by simp
  next
    case False
    with look have "map_of (transitions (h r)) symbol' = Some ts"
      by (simp add: add_transition_lookup split: if_splits)
    with assms show ?thesis unfolding no_duplicate_targets_def by blast
  qed
qed

lemma add_transition_nonempty:
  assumes "nonempty_targets h"
  shows "nonempty_targets (add_transition h f symbol t)"
  unfolding nonempty_targets_def
proof (intro allI impI)
  fix r symbol' ts
  assume look: "map_of (transitions (add_transition h f symbol t r)) symbol' = Some ts"
  show "ts \<noteq> []"
  proof (cases "r = f \<and> symbol' = symbol")
    case True
    with look have "ts = appended (map_of (transitions (h f)) symbol) (name (h t))"
      by (simp add: add_transition_lookup)
    then show ?thesis by (simp add: appended_nonempty)
  next
    case False
    with look have "map_of (transitions (h r)) symbol' = Some ts"
      by (simp add: add_transition_lookup split: if_splits)
    with assms show ?thesis unfolding nonempty_targets_def by blast
  qed
qed

lemma count_list_distinct: "distinct xs \<Longrightarrow> x \<in> set xs \<Longrightarrow> count_list xs x = 1"
  by (induction xs) auto

lemma add_transitions_no_dup:
  "no_duplicate_targets h \<Longrightarrow>
   no_duplicate_targets (foldl (\<lambda>h' (f', symbol', t'). add_transition h' f' symbol' t') h calls)"
  by (induction calls arbitrary: h) (auto simp: add_transition_no_dup)

lemma fresh_heap_nonempty: "nonempty_targets (fresh_heap names)"
  by (simp add: nonempty_targets_def fresh_heap_def StateItem_init_def)

lemma fresh_heap_no_dup: "no_duplicate_targets (fresh_heap names)"
  by (simp add: no_duplicate_targets_def fresh_heap_def StateItem_init_def)

lemma set_start_transitions [simp]:
  "transitions (fst (set_start h a r) x) = transitions (h x)"
  by (simp add: set_start_def Let_def StateItem_set_start_def split: option.splits)

lemma set_accept_transitions [simp]:
  "transitions (fst (set_accept h a r) x) = transitions (h x)"
  by (simp add: set_accept_def Let_def StateItem_set_accept_def)

lemma apply_op_nonempty:
  "nonempty_targets (fst w) \<Longrightarrow> nonempty_targets (fst (apply_op w x))"
proof (cases w)
  case (Pair h a)
  assume "nonempty_targets (fst w)"
  with Pair show ?thesis
    by (cases x) (simp_all add: add_transition_nonempty, simp_all add: nonempty_targets_def)
qed

lemma foldl_apply_op_nonempty:
  "nonempty_targets (fst w) \<Longrightarrow> nonempty_targets (fst (foldl apply_op w ops))"
  by (induction ops arbitrary: w) (simp_all add: apply_op_nonempty)

lemma build_nonempty: "nonempty_targets (fst (build names d ops))"
  unfolding build_def by (rule foldl_apply_op_nonempty) (simp add: fresh_heap_nonempty)

lemma dfa_loop_spec:
  "nonempty_targets h \<Longrightarrow> dfa_loop h a q s = Inr (spec_dfa_accepts h a q s)"
proof (induction s arbitrary: q)
  case Nil
  show ?case by simp
next
  case (Cons c cs)
  show ?case
  proof (cases "map_of (states a) q")
    case None
    then show ?thesis by (simp add: spec_transition_entry_def)
  next
    case (Some r)
    show ?thesis
    proof (cases "map_of (transitions (h r)) [c]")
      case None
      with Some show ?thesis by (simp add: spec_transition_entry_def)
    next
      case (Some ts)
      with Cons.prems have "ts \<noteq> []"
        unfolding nonempty_targets_def by blast
      then obtain t ts' where "ts = t # ts'" by (cases ts) auto
      with Some \<open>map_of (states a) q = Some r\<close> Cons.IH [OF Cons.prems, of t] show ?thesis
        by (simp add: spec_transition_entry_def)
    qed
  qed
qed

section \<open>Simulation without a start state\<close>

text \<open>
  Claim C5. When \<^verbatim>\<open>start_state\<close> is not set (it is \<^verbatim>\<open>None\<close>; the guard treats the
  empty name the same way), \<^verbatim>\<open>simulate\<close> returns \<^verbatim>\<open>False\<close> for every input string,
  the empty one included, in DFA mode and in NFA mode.
\<close>

theorem simulate_no_start:
  "start_state a = None \<or> start_state a = Some [] \<Longrightarrow> simulate h a s = Inr False"
  by (auto simp: simulate_def truthy_def)

theorem simulate_no_start_witness:
  "simulate (fresh_heap (\<lambda>r. ''q'')) (Automaton_init True) '''' = Inr False
   \<and> simulate (fresh_heap (\<lambda>r. ''q'')) (Automaton_init False) ''ab'' = Inr False"
  using simulate_no_start [of "Automaton_init True" "fresh_heap (\<lambda>r. ''q'')" "''''"]
        simulate_no_start [of "Automaton_init False" "fresh_heap (\<lambda>r. ''q'')" "''ab''"]
  by (simp add: Automaton_init_def)

section \<open>Marking accept states\<close>

text \<open>
  Claim C9. \<^verbatim>\<open>set_accept\<close> is idempotent: a second call on the same state returns
  the store and the automaton of the first call unchanged; after it the state's name is a
  member of \<^verbatim>\<open>accept_states\<close> (a set, so it is there once), \<^verbatim>\<open>is_accept\<close> is true,
  and every name that was in \<^verbatim>\<open>accept_states\<close> before is still there.
\<close>

theorem set_accept_idempotent:
  "(case set_accept h a r of (h1, a1) \<Rightarrow>
      set_accept h1 a1 r = (h1, a1) \<and> name (h1 r) \<in> accept_states a1 \<and> is_accept (h1 r)
      \<and> accept_states a \<subseteq> accept_states a1 \<and> name (h1 r) = name (h r))"
  by (auto simp: set_accept_def StateItem_set_accept_def Let_def insert_absorb)

section \<open>The empty frontier\<close>

lemma nfa_loop_empty: "nfa_loop h a {} cs = Inr {}"
  by (induction cs) (simp_all add: nfa_step_def)

lemma nfa_loop_append:
  "nfa_loop h a S (xs @ ys) =
     (case nfa_loop h a S xs of Inl e \<Rightarrow> Inl e | Inr S' \<Rightarrow> nfa_loop h a S' ys)"
  by (induction xs arbitrary: S) (auto split: sum.splits)

text \<open>
  Claim C8. In NFA mode, once the frontier is empty after some prefix of the input, every
  further character leaves it empty (whatever remains of the input), and
  \<^verbatim>\<open>simulate\<close> rejects the whole input.
\<close>

theorem nfa_empty_frontier_rejects:
  "\<not> is_dfa a \<Longrightarrow> start_state a = Some q \<Longrightarrow> q \<noteq> [] \<Longrightarrow>
   nfa_loop h a {q} pre = Inr {} \<Longrightarrow>
   nfa_loop h a {} rest = Inr {} \<and> simulate h a (pre @ rest) = Inr False"
  by (simp add: simulate_def truthy_def nfa_loop_append nfa_loop_empty)

theorem nfa_empty_frontier_rejects_witness:
  "\<not> is_dfa (snd (build ex_names False ex_ops))
   \<and> start_state (snd (build ex_names False ex_ops)) = Some ''q0''
   \<and> nfa_loop (fst (build ex_names False ex_ops)) (snd (build ex_names False ex_ops)) {''q0''} ''aa'' = Inr {}
   \<and> nfa_loop (fst (build ex_names False ex_ops)) (snd (build ex_names False ex_ops)) {} ''ab'' = Inr {}
   \<and> simulate (fst (build ex_names False ex_ops)) (snd (build ex_names False ex_ops)) (''aa'' @ ''ab'')
       = Inr False"
proof -
  let ?h = "fst (build ex_names False ex_ops)" and ?a = "snd (build ex_names False ex_ops)"
  have 1: "\<not> is_dfa ?a" and 2: "start_state ?a = Some ''q0''"
    and 3: "nfa_loop ?h ?a {''q0''} ''aa'' = Inr {}"
    by (simp_all add: engine_defs)
  have 4: "''q0'' \<noteq> []" by simp
  from nfa_empty_frontier_rejects [OF 1 2 4 3, of "''ab''"] 1 2 3 show ?thesis by simp
qed

section \<open>Deduplication of transitions\<close>

text \<open>
  Claim C7. From a store in which no target list has a duplicate, calling
  \<^verbatim>\<open>add_transition\<close> twice with the same source, symbol and target leaves a list
  under that symbol in which the target's name occurs exactly once (the second call
  changes nothing), and every sequence of \<^verbatim>\<open>add_transition\<close> calls leaves every target
  list of every state without duplicates.
\<close>

theorem add_transition_dedup:
  "no_duplicate_targets h \<Longrightarrow>
     (\<exists>ts. map_of (transitions (add_transition (add_transition h f symbol t) f symbol t f)) symbol = Some ts
           \<and> count_list ts (name (h t)) = 1)
     \<and> add_transition (add_transition h f symbol t) f symbol t = add_transition h f symbol t
     \<and> no_duplicate_targets (foldl (\<lambda>h' (f', symbol', t'). add_transition h' f' symbol' t') h calls)"
proof (intro conjI)
  assume inv: "no_duplicate_targets h"
  let ?h1 = "add_transition h f symbol t"
  let ?ts = "appended (map_of (transitions (h f)) symbol) (name (h t))"
  have look: "map_of (transitions (?h1 f)) symbol = Some ?ts"
    by (simp add: add_transition_lookup)
  have "no_duplicate_targets ?h1"
    using inv by (rule add_transition_no_dup)
  then have "distinct ?ts"
    using look unfolding no_duplicate_targets_def by blast
  moreover have "name (h t) \<in> set ?ts"
    by (rule appended_member)
  ultimately have "count_list ?ts (name (h t)) = 1"
    by (rule count_list_distinct)
  then show "\<exists>ts. map_of (transitions (add_transition ?h1 f symbol t f)) symbol = Some ts
           \<and> count_list ts (name (h t)) = 1"
    using look by (simp add: add_transition_twice)
  show "add_transition ?h1 f symbol t = ?h1"
    by (rule add_transition_twice)
  show "no_duplicate_targets (foldl (\<lambda>h' (f', symbol', t'). add_transition h' f' symbol' t') h calls)"
    using inv by (rule add_transitions_no_dup)
qed

theorem add_transition_dedup_witness:
  "no_duplicate_targets (fresh_heap ex_names)
   \<and> map_of (transitions (add_transition (add_transition (fresh_heap ex_names) 0 ''a'' 1) 0 ''a'' 1 0)) ''a''
       = Some [''q1'']
   \<and> count_list [''q1''] (name (fresh_heap ex_names 1)) = 1
   \<and> no_duplicate_targets
        (foldl (\<lambda>h' (f', symbol', t'). add_transition h' f' symbol' t') (fresh_heap ex_names)
           [(0, ''a'', 1), (0, ''a'', 2), (0, ''a'', 1)])"
  using add_transition_dedup [OF fresh_heap_no_dup, of ex_names 0 "''a''" 1
          "[(0, ''a'', 1), (0, ''a'', 2), (0, ''a'', 1)]"]
        fresh_heap_no_dup [of ex_names]
  by (simp add: engine_defs)

section \<open>Target lists are never empty\<close>

text \<open>
  Claim C10. In every automaton built by the engine (its transition tables are filled by
  \<^verbatim>\<open>add_transition\<close> only), every symbol that is a key of a state's transition table
  maps to a non-empty target list; so in DFA mode \<^verbatim>\<open>simulate\<close> returns a boolean: the
  element 0 taken after the membership test always exists.
\<close>

theorem built_targets_nonempty:
  "build names d ops = (h, a) \<Longrightarrow>
   nonempty_targets h \<and> (is_dfa a \<longrightarrow> (\<exists>b. simulate h a s = Inr b))"
  using build_nonempty [of names d ops]
  by (auto simp: simulate_def dfa_loop_spec)

theorem built_targets_nonempty_witness:
  "nonempty_targets (fst (build ex_names True ex_ops))
   \<and> is_dfa (snd (build ex_names True ex_ops))
   \<and> simulate (fst (build ex_names True ex_ops)) (snd (build ex_names True ex_ops)) ''ab'' = Inr True"
  using built_targets_nonempty [of ex_names True ex_ops "fst (build ex_names True ex_ops)"
          "snd (build ex_names True ex_ops)" "''ab''"]
  by (simp add: engine_defs)

section \<open>Simulation in DFA mode\<close>



section \<open>Simulation in NFA mode\<close>

lemma nfa_targets_spec:
  "nfa_targets h a [c] q = (case spec_transition_entry h a q c of None \<Rightarrow> {} | Some ts \<Rightarrow> set ts)"
  by (simp add: nfa_targets_def spec_transition_entry_def split: option.splits)

lemma nfa_step_spec: "nfa_step h a F [c] = Inr F' \<Longrightarrow> F' = spec_nfa_next h a F c"
  by (auto simp: nfa_step_def spec_nfa_next_def nfa_targets_spec split: if_splits)

lemma nfa_loop_spec: "nfa_loop h a F s = Inr F' \<Longrightarrow> F' = spec_nfa_frontier h a F s"
proof (induction s arbitrary: F)
  case Nil
  then show ?case by simp
next
  case (Cons c cs)
  then obtain F1 where 1: "nfa_step h a F [c] = Inr F1" and 2: "nfa_loop h a F1 cs = Inr F'"
    by (auto split: sum.splits)
  from 1 have "F1 = spec_nfa_next h a F c" by (rule nfa_step_spec)
  with Cons.IH [OF 2] show ?case by simp
qed

text \<open>
  Whenever the NFA branch returns, it returns what the specification says: the two can
  differ only where the code raises.
\<close>

lemma nfa_simulate_spec:
  "\<not> is_dfa a \<Longrightarrow> start_state a = Some q \<Longrightarrow> q \<noteq> [] \<Longrightarrow> simulate h a s = Inr b \<Longrightarrow>
   b = spec_nfa_accepts h a q s"
  by (auto simp: simulate_def truthy_def spec_nfa_accepts_def split: sum.splits dest: nfa_loop_spec)

text \<open>
  Claim C2 says that in NFA mode, for every automaton with a start state and every input,
  a frontier name whose state has no transition for the character contributes nothing and
  the result is whether the final frontier meets \<^verbatim>\<open>accept_states\<close>. The code does so
  only while every name of the frontier is a key of the state mapping. In the automaton
  built by \<open>nfa_ops\<close> the input \<open>a\<close> is accepted with the frontier \<open>{q1, q2}\<close>; on the
  input \<open>aa\<close> the specification's frontier becomes empty and the input is rejected,
  whereas the lookup \<^verbatim>\<open>self.states[state_name]\<close> raises \<^verbatim>\<open>KeyError\<close> for \<open>q2\<close>.
\<close>

theorem nfa_simulate_key_error:
  "\<not> is_dfa (snd (build ex_names False nfa_ops))
   \<and> start_state (snd (build ex_names False nfa_ops)) = Some ''q0''
   \<and> simulate (fst (build ex_names False nfa_ops)) (snd (build ex_names False nfa_ops)) ''a'' = Inr True
   \<and> simulate (fst (build ex_names False nfa_ops)) (snd (build ex_names False nfa_ops)) ''aa'' = Inl KeyError
   \<and> spec_nfa_frontier (fst (build ex_names False nfa_ops)) (snd (build ex_names False nfa_ops)) {''q0''} ''a''
       = {''q1'', ''q2''}
   \<and> \<not> spec_nfa_accepts (fst (build ex_names False nfa_ops)) (snd (build ex_names False nfa_ops)) ''q0'' ''aa''"
  by (simp add: engine_defs nfa_ops_def spec_nfa_accepts_def spec_nfa_next_def spec_transition_entry_def)

section \<open>Exceptions raised by simulate\<close>

text \<open>
  Claim C3 says that \<^verbatim>\<open>simulate\<close> never raises, in either mode, also when a transition
  table names a destination that is not a key of the state mapping. In NFA mode it
  raises \<^verbatim>\<open>KeyError\<close>: on the automaton built by \<open>dangling_ops\<close> with the input \<open>aa\<close>
  (the frontier after the first \<open>a\<close> holds the unmapped name), and on an automaton whose
  start state was never added, with the input \<open>a\<close>. The DFA branch, which looks the name
  up with \<^verbatim>\<open>get\<close> and tests the result, returns \<^verbatim>\<open>False\<close> on the same automaton.
\<close>

theorem simulate_raises_on_dangling_target:
  "simulate (fst (build ex_names False dangling_ops)) (snd (build ex_names False dangling_ops)) ''aa''
     = Inl KeyError
   \<and> simulate (fst (build ex_names True dangling_ops)) (snd (build ex_names True dangling_ops)) ''aa''
     = Inr False
   \<and> simulate (fst (build ex_names False [SetStart 0])) (snd (build ex_names False [SetStart 0])) ''a''
     = Inl KeyError"
  by (simp add: engine_defs dangling_ops_def)

section \<open>Exclusivity of the start state\<close>

lemma set_start_name [simp]: "name (fst (set_start h a r) x) = name (h x)"
  by (simp add: set_start_def Let_def StateItem_set_start_def split: option.splits)

lemma set_start_states [simp]: "states (snd (set_start h a r)) = states a"
  by (simp add: set_start_def Let_def)

lemma set_start_start_state [simp]: "start_state (snd (set_start h a r)) = Some (name (h r))"
  by (simp add: set_start_def Let_def StateItem_set_start_def split: option.splits)

lemma set_start_is_start:
  "is_start (fst (set_start h a r) x) = (x = r \<or> (is_start (h x) \<and> \<not> cleared h a r x))"
  by (simp add: set_start_def Let_def StateItem_set_start_def cleared_def split: option.splits)

lemma set_accept_fields [simp]:
  "name (fst (set_accept h a r) x) = name (h x)"
  "is_start (fst (set_accept h a r) x) = is_start (h x)"
  "states (snd (set_accept h a r)) = states a"
  "start_state (snd (set_accept h a r)) = start_state a"
  by (simp_all add: set_accept_def Let_def StateItem_set_accept_def)

lemma start_inv_at_most_one: "start_inv h a \<Longrightarrow> at_most_one_start h a"
  unfolding start_inv_def at_most_one_start_def
proof (intro allI impI)
  fix n1 r1 n2 r2
  assume inv: "(\<forall>r. is_start (h r) \<longrightarrow>
           start_state a = Some (name (h r)) \<and> map_of (states a) (name (h r)) = Some r)
      \<and> start_state a \<noteq> Some []"
    and st: "map_of (states a) n1 = Some r1 \<and> map_of (states a) n2 = Some r2
        \<and> is_start (h r1) \<and> is_start (h r2)"
  from inv st have 1: "start_state a = Some (name (h r1))" "map_of (states a) (name (h r1)) = Some r1"
    by blast+
  from inv st have 2: "start_state a = Some (name (h r2))" "map_of (states a) (name (h r2)) = Some r2"
    by blast+
  from 1 2 show "r1 = r2" by simp
qed

lemma start_inv_init: "start_inv (fresh_heap names) (Automaton_init d)"
  by (simp add: start_inv_def fresh_heap_def StateItem_init_def Automaton_init_def)

lemma start_inv_add_state:
  assumes "start_inv h a" and "map_of (states a) (name (h r)) = None"
  shows "start_inv h (add_state h a r)"
  unfolding start_inv_def
proof (intro conjI allI impI)
  fix x assume x: "is_start (h x)"
  with assms(1) have 1: "start_state a = Some (name (h x))" "map_of (states a) (name (h x)) = Some x"
    unfolding start_inv_def by blast+
  with assms(2) have "name (h x) \<noteq> name (h r)" by auto
  with 1 show "start_state (add_state h a r) = Some (name (h x))"
    and "map_of (states (add_state h a r)) (name (h x)) = Some x"
    by (simp_all add: add_state_def AList.update_conv')
next
  from assms(1) show "start_state (add_state h a r) \<noteq> Some []"
    by (simp add: start_inv_def add_state_def)
qed

lemma start_inv_set_start:
  assumes inv: "start_inv h a" and ne: "name (h r) \<noteq> []"
    and mapped: "map_of (states a) (name (h r)) = Some r"
  shows "start_inv (fst (set_start h a r)) (snd (set_start h a r))"
  unfolding start_inv_def
proof (intro conjI allI impI)
  fix x assume x: "is_start (fst (set_start h a r) x)"
  have "x = r"
  proof (rule ccontr)
    assume xr: "x \<noteq> r"
    with x have old: "is_start (h x)" and nc: "\<not> cleared h a r x"
      by (simp_all add: set_start_is_start)
    from inv old have 1: "start_state a = Some (name (h x))"
      and 2: "map_of (states a) (name (h x)) = Some x"
      unfolding start_inv_def by blast+
    from inv 1 have 3: "name (h x) \<noteq> []" unfolding start_inv_def by auto
    from 2 mapped xr have 4: "name (h x) \<noteq> name (h r)" by auto
    from 1 2 3 4 have "cleared h a r x" by (simp add: cleared_def truthy_def)
    with nc show False by simp
  qed
  with mapped show "start_state (snd (set_start h a r)) = Some (name (fst (set_start h a r) x))"
    and "map_of (states (snd (set_start h a r))) (name (fst (set_start h a r) x)) = Some x"
    by simp_all
next
  from ne show "start_state (snd (set_start h a r)) \<noteq> Some []" by simp
qed

lemma start_inv_set_accept:
  "start_inv h a \<Longrightarrow> start_inv (fst (set_accept h a r)) (snd (set_accept h a r))"
  by (simp add: start_inv_def)

lemma start_inv_add_transition:
  "start_inv h a \<Longrightarrow> start_inv (add_transition h f symbol t) a"
  by (simp add: start_inv_def)

lemma start_inv_apply_op:
  assumes "start_inv (fst w) (snd w)" and "op_ok w x"
  shows "start_inv (fst (apply_op w x)) (snd (apply_op w x))"
proof (cases w)
  case (Pair h a)
  with assms show ?thesis
    by (cases x)
       (simp_all add: start_inv_add_state start_inv_set_start start_inv_set_accept
          start_inv_add_transition)
qed

lemma start_inv_ops:
  "start_inv (fst w) (snd w) \<Longrightarrow> ops_ok w ops \<Longrightarrow>
   start_inv (fst (foldl apply_op w ops)) (snd (foldl apply_op w ops))"
  by (induction ops arbitrary: w) (simp_all add: start_inv_apply_op)

lemma set_start_twice:
  assumes A: "map_of (states a) (name (h A)) = Some A"
    and B: "map_of (states a) (name (h B)) = Some B"
    and AB: "A \<noteq> B" and ne: "name (h A) \<noteq> []"
  shows "\<not> is_start (fst (set_start (fst (set_start h a A)) (snd (set_start h a A)) B) A)
       \<and> is_start (fst (set_start (fst (set_start h a A)) (snd (set_start h a A)) B) B)
       \<and> start_state (snd (set_start (fst (set_start h a A)) (snd (set_start h a A)) B))
           = Some (name (h B))"
proof -
  from A B AB have names: "name (h A) \<noteq> name (h B)" by auto
  with A ne have "cleared (fst (set_start h a A)) (snd (set_start h a A)) B A"
    by (simp add: cleared_def truthy_def)
  with AB show ?thesis by (simp add: set_start_is_start)
qed

text \<open>
  Claim C6, as amended. (1) For two distinct state items \<open>A\<close> and \<open>B\<close> that the mapping
  holds under their names, the name of \<open>A\<close> not being empty, after \<^verbatim>\<open>set_start(A)\<close> and
  then \<^verbatim>\<open>set_start(B)\<close> the flag of \<open>A\<close> is false, the flag of \<open>B\<close> is true and
  \<^verbatim>\<open>start_state\<close> is the name of \<open>B\<close>. (2) Every sequence of engine operations on a new
  automaton over fresh items in which \<^verbatim>\<open>add_state\<close> is only given a name not yet in the
  mapping and \<^verbatim>\<open>set_start\<close> only an item with a non-empty name that the mapping holds
  leaves at most one state of the automaton with \<^verbatim>\<open>is_start\<close> set.
\<close>

theorem set_start_exclusive:
  "(map_of (states a) (name (h A)) = Some A \<and> map_of (states a) (name (h B)) = Some B
      \<and> A \<noteq> B \<and> name (h A) \<noteq> [] \<longrightarrow>
      \<not> is_start (fst (set_start (fst (set_start h a A)) (snd (set_start h a A)) B) A)
      \<and> is_start (fst (set_start (fst (set_start h a A)) (snd (set_start h a A)) B) B)
      \<and> start_state (snd (set_start (fst (set_start h a A)) (snd (set_start h a A)) B))
          = Some (name (h B)))
   \<and> (ops_ok (fresh_heap names, Automaton_init d) ops \<longrightarrow>
        at_most_one_start (fst (build names d ops)) (snd (build names d ops)))"
proof (rule conjI)
  show "map_of (states a) (name (h A)) = Some A \<and> map_of (states a) (name (h B)) = Some B
      \<and> A \<noteq> B \<and> name (h A) \<noteq> [] \<longrightarrow>
      \<not> is_start (fst (set_start (fst (set_start h a A)) (snd (set_start h a A)) B) A)
      \<and> is_start (fst (set_start (fst (set_start h a A)) (snd (set_start h a A)) B) B)
      \<and> start_state (snd (set_start (fst (set_start h a A)) (snd (set_start h a A)) B))
          = Some (name (h B))"
    using set_start_twice [of a h A B] by blast
  show "ops_ok (fresh_heap names, Automaton_init d) ops \<longrightarrow>
        at_most_one_start (fst (build names d ops)) (snd (build names d ops))"
  proof (rule impI)
    assume ok: "ops_ok (fresh_heap names, Automaton_init d) ops"
    have "start_inv (fst (fresh_heap names, Automaton_init d)) (snd (fresh_heap names, Automaton_init d))"
      by (simp add: start_inv_init)
    from start_inv_ops [OF this ok]
    show "at_most_one_start (fst (build names d ops)) (snd (build names d ops))"
      unfolding build_def by (rule start_inv_at_most_one)
  qed
qed

lemma apply_op_SetStart: "apply_op w (SetStart r) = set_start (fst w) (snd w) r"
  by (cases w) simp

theorem set_start_exclusive_witness:
  "map_of (states (snd (build ex_names True [AddState 0, AddState 1]))) ''q0'' = Some 0
   \<and> map_of (states (snd (build ex_names True [AddState 0, AddState 1]))) ''q1'' = Some 1
   \<and> \<not> is_start (fst (build ex_names True ordered_ops) 0)
   \<and> is_start (fst (build ex_names True ordered_ops) 1)
   \<and> start_state (snd (build ex_names True ordered_ops)) = Some ''q1''
   \<and> ops_ok (fresh_heap ex_names, Automaton_init True) ordered_ops
   \<and> at_most_one_start (fst (build ex_names True ordered_ops)) (snd (build ex_names True ordered_ops))"
proof -
  let ?h = "fst (build ex_names True [AddState 0, AddState 1])"
  let ?a = "snd (build ex_names True [AddState 0, AddState 1])"
  have pre: "map_of (states ?a) (name (?h 0)) = Some 0 \<and> map_of (states ?a) (name (?h 1)) = Some 1
      \<and> (0::nat) \<noteq> 1 \<and> name (?h 0) \<noteq> []"
    by (simp add: engine_defs)
  have ok: "ops_ok (fresh_heap ex_names, Automaton_init True) ordered_ops"
    by (simp add: engine_defs ordered_ops_def)
  have unfold: "build ex_names True ordered_ops
      = set_start (fst (set_start ?h ?a 0)) (snd (set_start ?h ?a 0)) 1"
    by (simp add: build_def ordered_ops_def apply_op_SetStart)
  from set_start_exclusive [of ?a ?h 0 1 ex_names True ordered_ops] pre ok unfold
  show ?thesis by (simp add: engine_defs)
qed

text \<open>
  The claim as stated fails. After \<^verbatim>\<open>set_start\<close> on two items that are added only
  afterwards, both items of the mapping have the flag set: the previous start item is
  looked up in the mapping by name and is not found. And when the first start item has the
  empty name, the guard \<^verbatim>\<open>if self.start_state\<close> is false for it and its flag is not
  cleared, although both items are in the mapping.
\<close>

theorem set_start_not_exclusive:
  "\<not> at_most_one_start (fst (build ex_names True unadded_ops)) (snd (build ex_names True unadded_ops))
   \<and> map_of (states (snd (build empty_names True ordered_ops))) (empty_names 0) = Some 0
   \<and> map_of (states (snd (build empty_names True ordered_ops))) (empty_names 1) = Some 1
   \<and> is_start (fst (build empty_names True ordered_ops) 0)
   \<and> is_start (fst (build empty_names True ordered_ops) 1)
   \<and> \<not> at_most_one_start (fst (build empty_names True ordered_ops))
          (snd (build empty_names True ordered_ops))"
proof -
  let ?h = "fst (build ex_names True unadded_ops)" and ?a = "snd (build ex_names True unadded_ops)"
  let ?h' = "fst (build empty_names True ordered_ops)" and ?a' = "snd (build empty_names True ordered_ops)"
  have 1: "map_of (states ?a) ''q0'' = Some 0 \<and> map_of (states ?a) ''q1'' = Some 1
      \<and> is_start (?h 0) \<and> is_start (?h 1)"
    by (simp add: engine_defs unadded_ops_def)
  have "\<not> at_most_one_start ?h ?a"
  proof
    assume "at_most_one_start ?h ?a"
    with 1 have "(0::nat) = 1" unfolding at_most_one_start_def by blast
    then show False by simp
  qed
  moreover have 2: "map_of (states ?a') (empty_names 0) = Some 0 \<and> map_of (states ?a') (empty_names 1) = Some 1
      \<and> is_start (?h' 0) \<and> is_start (?h' 1)"
    by (simp add: engine_defs ordered_ops_def empty_names_def)
  moreover have "\<not> at_most_one_start ?h' ?a'"
  proof
    assume "at_most_one_start ?h' ?a'"
    with 2 have "(0::nat) = 1" unfolding at_most_one_start_def by blast
    then show False by simp
  qed
  ultimately show ?thesis by blast
qed

section \<open>Saving and loading\<close>

lemma apply_op_name [simp]: "name (fst (apply_op w x) r) = name (fst w r)"
  by (cases w; cases x) simp_all

lemma apply_op_states:
  "states (snd (apply_op w x)) =
     (case x of AddState r \<Rightarrow> AList.update (name (fst w r)) r (states (snd w)) | _ \<Rightarrow> states (snd w))"
  by (cases w; cases x) (simp_all add: add_state_def)

lemma apply_op_name_keyed:
  assumes "name_keyed (fst w) (snd w)"
  shows "name_keyed (fst (apply_op w x)) (snd (apply_op w x))"
  unfolding name_keyed_def
proof (intro allI impI)
  fix k r assume look: "map_of (states (snd (apply_op w x))) k = Some r"
  show "name (fst (apply_op w x) r) = k"
  proof (cases "\<exists>s. x = AddState s \<and> k = name (fst w s)")
    case True
    with look show ?thesis by (auto simp: apply_op_states AList.update_conv')
  next
    case False
    with look have "map_of (states (snd w)) k = Some r"
      by (cases x) (auto simp: apply_op_states AList.update_conv' split: if_splits)
    with assms show ?thesis by (simp add: name_keyed_def)
  qed
qed

lemma add_transition_table:
  "transitions (add_transition h f symbol t f) =
     (case map_of (transitions (h f)) symbol of
        None \<Rightarrow> AList.update symbol [name (h t)] (AList.update symbol [] (transitions (h f)))
      | Some ts \<Rightarrow> if name (h t) \<in> set ts then transitions (h f)
                   else AList.update symbol (ts @ [name (h t)]) (transitions (h f)))"
  by (simp add: add_transition_def Let_def AList.update_conv' split: option.splits)

lemma add_transition_other: "r \<noteq> f \<Longrightarrow> add_transition h f symbol t r = h r"
  by (simp add: add_transition_def Let_def)

lemma add_transition_distinct_keys:
  assumes "distinct (map fst (transitions (h r)))"
  shows "distinct (map fst (transitions (add_transition h f symbol t r)))"
proof (cases "r = f")
  case False
  with assms show ?thesis by (simp add: add_transition_other)
next
  case True
  with assms have d: "distinct (map fst (transitions (h f)))" by simp
  show ?thesis
  proof (cases "map_of (transitions (h f)) symbol")
    case None
    with True show ?thesis
      by (simp add: add_transition_table AList.distinct_update [OF d])
  next
    case (Some ts)
    with True d show ?thesis
      by (simp add: add_transition_table AList.distinct_update [OF d])
  qed
qed

lemma set_start_distinct_keys:
  "distinct_keys (fst (set_start h a r)) (snd (set_start h a r)) = distinct_keys h a"
  by (simp add: distinct_keys_def)

lemma set_accept_distinct_keys:
  "distinct_keys (fst (set_accept h a r)) (snd (set_accept h a r)) = distinct_keys h a"
  by (simp add: distinct_keys_def)

lemma add_state_distinct_keys: "distinct_keys h a \<Longrightarrow> distinct_keys h (add_state h a r)"
  by (simp add: distinct_keys_def add_state_def AList.distinct_update)

lemma add_transition_distinct_keys':
  "distinct_keys h a \<Longrightarrow> distinct_keys (add_transition h f symbol t) a"
  by (simp add: distinct_keys_def add_transition_distinct_keys)

lemma apply_op_distinct_keys:
  assumes "distinct_keys (fst w) (snd w)"
  shows "distinct_keys (fst (apply_op w x)) (snd (apply_op w x))"
proof (cases w)
  case (Pair h a)
  with assms show ?thesis
    by (cases x)
       (simp_all add: set_start_distinct_keys set_accept_distinct_keys add_state_distinct_keys
          add_transition_distinct_keys')
qed

lemma set_start_no_dup: "no_duplicate_targets (fst (set_start h a r)) = no_duplicate_targets h"
  by (simp add: no_duplicate_targets_def)

lemma set_accept_no_dup: "no_duplicate_targets (fst (set_accept h a r)) = no_duplicate_targets h"
  by (simp add: no_duplicate_targets_def)

lemma apply_op_no_dup:
  "no_duplicate_targets (fst w) \<Longrightarrow> no_duplicate_targets (fst (apply_op w x))"
proof (cases w)
  case (Pair h a)
  assume "no_duplicate_targets (fst w)"
  with Pair show ?thesis
    by (cases x) (simp_all add: add_transition_no_dup set_start_no_dup set_accept_no_dup)
qed

lemma built_inv_init: "built_inv (fresh_heap names) (Automaton_init d)"
  by (simp add: built_inv_def name_keyed_def distinct_keys_def fresh_heap_nonempty
        fresh_heap_no_dup)
     (simp add: fresh_heap_def StateItem_init_def Automaton_init_def)

lemma built_inv_foldl:
  "built_inv (fst w) (snd w) \<Longrightarrow>
   built_inv (fst (foldl apply_op w ops)) (snd (foldl apply_op w ops))"
  by (induction ops arbitrary: w)
     (simp_all add: built_inv_def apply_op_name_keyed apply_op_distinct_keys apply_op_nonempty
        apply_op_no_dup)

lemma build_inv: "built_inv (fst (build names d ops)) (snd (build names d ops))"
  unfolding build_def by (rule built_inv_foldl) (simp add: built_inv_init)

lemma update_fresh: "k \<notin> fst ` set al \<Longrightarrow> AList.update k v al = al @ [(k, v)]"
  by (induction al) auto

lemma saved_transitions_foldl:
  assumes "distinct (map fst al)"
    and "\<And>k r. (k, r) \<in> set al \<Longrightarrow> name (h r) = k"
    and "fst ` set d \<inter> fst ` set al = {}"
  shows "foldl (\<lambda>d (k, s). AList.update (name (h s)) (transitions (h s)) d) d al
       = d @ map (\<lambda>(k, s). (k, transitions (h s))) al"
  using assms
proof (induction al arbitrary: d)
  case Nil
  show ?case by simp
next
  case (Cons p al)
  obtain k r where p: "p = (k, r)" by (cases p)
  from Cons.prems(2) p have nk: "name (h r) = k" by simp
  from Cons.prems(3) p have fresh: "k \<notin> fst ` set d" by auto
  have step: "AList.update (name (h r)) (transitions (h r)) d = d @ [(k, transitions (h r))]"
    using fresh nk by (simp add: update_fresh)
  have disj: "fst ` set (d @ [(k, transitions (h r))]) \<inter> fst ` set al = {}"
    using Cons.prems(1,3) p by auto
  have "foldl (\<lambda>d (k, s). AList.update (name (h s)) (transitions (h s)) d)
          (d @ [(k, transitions (h r))]) al
        = (d @ [(k, transitions (h r))]) @ map (\<lambda>(k, s). (k, transitions (h s))) al"
    using Cons.prems(1,2) disj by (intro Cons.IH) auto
  with step p show ?case by simp
qed

lemma saved_transitions_eq:
  assumes "name_keyed h a" and "distinct (map fst (states a))"
  shows "saved_transitions (save_automaton h a accs)
       = map (\<lambda>(k, s). (k, transitions (h s))) (states a)"
proof -
  have "\<And>k r. (k, r) \<in> set (states a) \<Longrightarrow> name (h r) = k"
    using assms by (simp add: name_keyed_def)
  from saved_transitions_foldl [OF assms(2) this, where d = "[]"] show ?thesis
    by (simp add: save_automaton_def)
qed

lemma add_state_fields [simp]:
  "start_state (add_state h a r) = start_state a"
  "accept_states (add_state h a r) = accept_states a"
  "is_dfa (add_state h a r) = is_dfa a"
  by (simp_all add: add_state_def)

lemma load_states_upto:
  assumes "m \<le> length ns"
  shows "fst (foldl (\<lambda>(h, a) i. (h, add_state h a i))
            (fresh_heap (item_names ns), Automaton_init True) [0..<m]) = fresh_heap (item_names ns)
       \<and> start_state (snd (foldl (\<lambda>(h, a) i. (h, add_state h a i))
            (fresh_heap (item_names ns), Automaton_init True) [0..<m])) = None
       \<and> accept_states (snd (foldl (\<lambda>(h, a) i. (h, add_state h a i))
            (fresh_heap (item_names ns), Automaton_init True) [0..<m])) = {}
       \<and> is_dfa (snd (foldl (\<lambda>(h, a) i. (h, add_state h a i))
            (fresh_heap (item_names ns), Automaton_init True) [0..<m]))
       \<and> (\<forall>k i. map_of (states (snd (foldl (\<lambda>(h, a) i. (h, add_state h a i))
            (fresh_heap (item_names ns), Automaton_init True) [0..<m]))) k = Some i
              \<longrightarrow> i < m \<and> ns ! i = k)
       \<and> (\<forall>k. k \<in> set (take m ns) \<longrightarrow>
              map_of (states (snd (foldl (\<lambda>(h, a) i. (h, add_state h a i))
            (fresh_heap (item_names ns), Automaton_init True) [0..<m]))) k \<noteq> None)"
  using assms
proof (induction m)
  case 0
  show ?case by (simp add: Automaton_init_def)
next
  case (Suc m)
  let ?w = "foldl (\<lambda>(h, a) i. (h, add_state h a i))
            (fresh_heap (item_names ns), Automaton_init True) [0..<m]"
  from Suc.prems have m: "m < length ns" by simp
  with Suc.IH have ih: "fst ?w = fresh_heap (item_names ns)" "start_state (snd ?w) = None"
    "accept_states (snd ?w) = {}" "is_dfa (snd ?w)"
    "\<And>k i. map_of (states (snd ?w)) k = Some i \<Longrightarrow> i < m \<and> ns ! i = k"
    "\<And>k. k \<in> set (take m ns) \<Longrightarrow> map_of (states (snd ?w)) k \<noteq> None"
    by simp_all
  have nm: "name (fresh_heap (item_names ns) m) = ns ! m"
    using m by (simp add: fresh_heap_def StateItem_init_def item_names_def)
  have step: "foldl (\<lambda>(h, a) i. (h, add_state h a i))
            (fresh_heap (item_names ns), Automaton_init True) [0..<Suc m]
     = (fresh_heap (item_names ns), add_state (fresh_heap (item_names ns)) (snd ?w) m)"
    using ih(1) by (simp add: case_prod_beta)
  have look: "map_of (states (add_state (fresh_heap (item_names ns)) (snd ?w) m))
     = (map_of (states (snd ?w)))(ns ! m \<mapsto> m)"
    by (simp add: add_state_def AList.update_conv' nm)
  have tk: "set (take (Suc m) ns) = insert (ns ! m) (set (take m ns))"
    using m by (simp add: take_Suc_conv_app_nth)
  show ?case
    unfolding step
  proof (intro conjI allI impI)
    fix k i
    assume "map_of (states (snd (fresh_heap (item_names ns),
              add_state (fresh_heap (item_names ns)) (snd ?w) m))) k = Some i"
    then have "(k = ns ! m \<and> i = m) \<or> map_of (states (snd ?w)) k = Some i"
      by (auto simp: look split: if_splits)
    then show "i < Suc m" and "ns ! i = k"
      using ih(5) by (auto simp: less_Suc_eq)
  next
    fix k assume "k \<in> set (take (Suc m) ns)"
    then show "map_of (states (snd (fresh_heap (item_names ns),
              add_state (fresh_heap (item_names ns)) (snd ?w) m))) k \<noteq> None"
      using ih(6) by (auto simp: look tk)
  qed (simp_all add: ih)
qed

lemma load_states_base:
  "loaded_base ns (load_states ns) \<and> start_state (snd (load_states ns)) = None
   \<and> accept_states (snd (load_states ns)) = {}"
  using load_states_upto [of "length ns" ns]
  by (simp add: loaded_base_def load_states_def fresh_heap_def StateItem_init_def)

lemma set_start_other_fields [simp]:
  "is_dfa (snd (set_start h a r)) = is_dfa a"
  "accept_states (snd (set_start h a r)) = accept_states a"
  by (simp_all add: set_start_def Let_def)

lemma set_accept_other_fields [simp]:
  "is_dfa (snd (set_accept h a r)) = is_dfa a"
  "accept_states (snd (set_accept h a r)) = insert (name (h r)) (accept_states a)"
  by (simp_all add: set_accept_def Let_def StateItem_set_accept_def)

lemma loaded_base_set_start:
  "loaded_base ns w \<Longrightarrow> loaded_base ns (set_start (fst w) (snd w) r)"
  by (simp add: loaded_base_def)

lemma loaded_base_set_accept:
  "loaded_base ns w \<Longrightarrow> loaded_base ns (set_accept (fst w) (snd w) r)"
  by (simp add: loaded_base_def)

lemma loaded_base_lookup:
  assumes "loaded_base ns w" and "k \<in> set ns"
  obtains i where "map_of (states (snd w)) k = Some i" and "name (fst w i) = k"
proof -
  from assms obtain i where i: "map_of (states (snd w)) k = Some i"
    unfolding loaded_base_def by blast
  with assms(1) have "i < length ns" "ns ! i = k" unfolding loaded_base_def by blast+
  moreover from assms(1) have "name (fst w i) = item_names ns i" unfolding loaded_base_def by blast
  ultimately have "name (fst w i) = k" by (simp add: item_names_def)
  with i that show thesis by blast
qed

lemma load_start_ok:
  assumes base: "loaded_base ns w" and none: "start_state (snd w) = None"
    and mapped: "truthy st \<Longrightarrow> the st \<in> set ns"
  shows "\<exists>w'. load_start st w = Inr w' \<and> loaded_base ns w'
           \<and> start_state (snd w') = (if truthy st then st else None)
           \<and> accept_states (snd w') = accept_states (snd w)"
proof (cases "truthy st")
  case False
  with base none show ?thesis by (simp add: load_start_def)
next
  case True
  then obtain q where st: "st = Some q" by (cases st) (simp_all add: truthy_def)
  with True mapped have "q \<in> set ns" by simp
  with base obtain i where i: "map_of (states (snd w)) q = Some i" and n: "name (fst w i) = q"
    by (rule loaded_base_lookup)
  from True st i have "load_start st w = Inr (set_start (fst w) (snd w) i)"
    by (simp add: load_start_def)
  with base True st n show ?thesis
    by (simp add: loaded_base_set_start)
qed

lemma load_accept_ok:
  assumes "loaded_base ns w" and "set acc \<subseteq> set ns"
  shows "\<exists>w'. load_accept acc w = Inr w' \<and> loaded_base ns w'
           \<and> start_state (snd w') = start_state (snd w)
           \<and> accept_states (snd w') = accept_states (snd w) \<union> set acc"
  using assms
proof (induction acc arbitrary: w)
  case Nil
  then show ?case by simp
next
  case (Cons n acc)
  from Cons.prems have "n \<in> set ns" by simp
  with Cons.prems(1) obtain i where i: "map_of (states (snd w)) n = Some i"
    and nm: "name (fst w i) = n"
    by (rule loaded_base_lookup)
  let ?w1 = "set_accept (fst w) (snd w) i"
  have b1: "loaded_base ns ?w1" using Cons.prems(1) by (rule loaded_base_set_accept)
  from Cons.prems(2) have "set acc \<subseteq> set ns" by simp
  from Cons.IH [OF b1 this] obtain w' where w': "load_accept acc ?w1 = Inr w'"
    "loaded_base ns w'" "start_state (snd w') = start_state (snd ?w1)"
    "accept_states (snd w') = accept_states (snd ?w1) \<union> set acc"
    by blast
  from i w' nm show ?case by simp
qed

lemma appended_new:
  "n \<notin> set (case old of None \<Rightarrow> [] | Some ts \<Rightarrow> ts) \<Longrightarrow>
   appended old n = (case old of None \<Rightarrow> [] | Some ts \<Rightarrow> ts) @ [n]"
  by (cases old) (simp_all add: appended_def)

lemma load_targets_effect:
  assumes "\<And>t. t \<in> set ts \<Longrightarrow> \<exists>i. map_of (states a) t = Some i \<and> name (h i) = t"
    and "distinct (current_targets h f symbol @ ts)"
  shows "snd (load_targets f symbol ts (h, a)) = a
       \<and> (\<forall>x. name (fst (load_targets f symbol ts (h, a)) x) = name (h x))
       \<and> (\<forall>x. x \<noteq> f \<longrightarrow> fst (load_targets f symbol ts (h, a)) x = h x)
       \<and> (\<forall>s. s \<noteq> symbol \<longrightarrow>
             map_of (transitions (fst (load_targets f symbol ts (h, a)) f)) s
               = map_of (transitions (h f)) s)
       \<and> map_of (transitions (fst (load_targets f symbol ts (h, a)) f)) symbol
           = (if ts = [] then map_of (transitions (h f)) symbol
              else Some (current_targets h f symbol @ ts))"
  using assms
proof (induction ts arbitrary: h)
  case Nil
  show ?case by simp
next
  case (Cons t ts)
  from Cons.prems(1) [of t] obtain i where i: "map_of (states a) t = Some i" and nm: "name (h i) = t"
    by auto
  let ?h1 = "add_transition h f symbol i"
  from Cons.prems(2) have fresh: "t \<notin> set (current_targets h f symbol)" by simp
  have look: "map_of (transitions (?h1 f)) symbol = Some (current_targets h f symbol @ [t])"
    using fresh nm
    by (simp add: add_transition_lookup current_targets_def appended_new)
  then have cur1: "current_targets ?h1 f symbol = current_targets h f symbol @ [t]"
    by (simp add: current_targets_def)
  have names1: "\<And>t'. t' \<in> set ts \<Longrightarrow> \<exists>j. map_of (states a) t' = Some j \<and> name (?h1 j) = t'"
    using Cons.prems(1) by simp
  have d1: "distinct (current_targets ?h1 f symbol @ ts)"
    using Cons.prems(2) by (simp add: cur1)
  note ih = Cons.IH [OF names1 d1]
  have unfold: "load_targets f symbol (t # ts) (h, a) = load_targets f symbol ts (?h1, a)"
    using i by simp
  have other: "\<And>s. s \<noteq> symbol \<Longrightarrow> map_of (transitions (?h1 f)) s = map_of (transitions (h f)) s"
    by (simp add: add_transition_lookup)
  show ?case
    unfolding unfold
  proof (intro conjI allI impI)
    show "snd (load_targets f symbol ts (?h1, a)) = a" using ih by blast
  next
    fix x show "name (fst (load_targets f symbol ts (?h1, a)) x) = name (h x)"
      using ih by simp
  next
    fix x assume "x \<noteq> f"
    with ih have "fst (load_targets f symbol ts (?h1, a)) x = ?h1 x" by blast
    with \<open>x \<noteq> f\<close> show "fst (load_targets f symbol ts (?h1, a)) x = h x"
      by (simp add: add_transition_other)
  next
    fix s assume "s \<noteq> symbol"
    with ih have "map_of (transitions (fst (load_targets f symbol ts (?h1, a)) f)) s
        = map_of (transitions (?h1 f)) s" by blast
    with other [OF \<open>s \<noteq> symbol\<close>]
    show "map_of (transitions (fst (load_targets f symbol ts (?h1, a)) f)) s
        = map_of (transitions (h f)) s" by simp
  next
    from ih have "map_of (transitions (fst (load_targets f symbol ts (?h1, a)) f)) symbol
           = (if ts = [] then map_of (transitions (?h1 f)) symbol
              else Some (current_targets ?h1 f symbol @ ts))" by blast
    then show "map_of (transitions (fst (load_targets f symbol ts (?h1, a)) f)) symbol
           = (if t # ts = [] then map_of (transitions (h f)) symbol
              else Some (current_targets h f symbol @ t # ts))"
      by (simp add: look cur1)
  qed
qed

lemma table_ok_Cons:
  "table_ok a ((symbol, ts) # table) \<Longrightarrow>
   table_ok a table \<and> symbol \<notin> fst ` set table \<and> ts \<noteq> [] \<and> distinct ts
   \<and> (\<forall>t \<in> set ts. map_of (states a) t \<noteq> None)"
  unfolding table_ok_def by (simp (no_asm_use)) blast

lemma load_symbols_effect:
  assumes "table_ok a table"
    and "name_keyed h a"
    and "\<And>s. s \<in> fst ` set table \<Longrightarrow> map_of (transitions (h f)) s = None"
  shows "snd (load_symbols f table (h, a)) = a
       \<and> (\<forall>x. name (fst (load_symbols f table (h, a)) x) = name (h x))
       \<and> (\<forall>x. x \<noteq> f \<longrightarrow> fst (load_symbols f table (h, a)) x = h x)
       \<and> (\<forall>s. map_of (transitions (fst (load_symbols f table (h, a)) f)) s
             = (case map_of table s of None \<Rightarrow> map_of (transitions (h f)) s | Some ts \<Rightarrow> Some ts))"
  using assms
proof (induction table arbitrary: h)
  case Nil
  show ?case by simp
next
  case (Cons p table)
  obtain symbol ts where p: "p = (symbol, ts)" by (cases p)
  from Cons.prems(1) p have ok: "table_ok a table" and fresh: "symbol \<notin> fst ` set table"
    and ne: "ts \<noteq> []" and d: "distinct ts" and mapped: "\<forall>t \<in> set ts. map_of (states a) t \<noteq> None"
    using table_ok_Cons by blast+
  have names: "\<And>t. t \<in> set ts \<Longrightarrow> \<exists>i. map_of (states a) t = Some i \<and> name (h i) = t"
    using mapped Cons.prems(2) unfolding name_keyed_def by fastforce
  have none: "map_of (transitions (h f)) symbol = None"
    using Cons.prems(3) [of symbol] p by simp
  then have cur: "current_targets h f symbol = []" by (simp add: current_targets_def)
  let ?h1 = "fst (load_targets f symbol ts (h, a))"
  from load_targets_effect [OF names, of ts f symbol] d cur ne
  have t1: "snd (load_targets f symbol ts (h, a)) = a"
    and t2: "\<And>x. name (?h1 x) = name (h x)"
    and t3: "\<And>x. x \<noteq> f \<Longrightarrow> ?h1 x = h x"
    and t4: "\<And>s. s \<noteq> symbol \<Longrightarrow> map_of (transitions (?h1 f)) s = map_of (transitions (h f)) s"
    and t5: "map_of (transitions (?h1 f)) symbol = Some ts"
    by simp_all
  have w1: "load_targets f symbol ts (h, a) = (?h1, a)"
    using t1 by (metis prod.collapse)
  have nk1: "name_keyed ?h1 a"
    using Cons.prems(2) t2 by (simp add: name_keyed_def)
  have none1: "\<And>s. s \<in> fst ` set table \<Longrightarrow> map_of (transitions (?h1 f)) s = None"
  proof -
    fix s assume s: "s \<in> fst ` set table"
    with fresh have "s \<noteq> symbol" by auto
    with t4 have "map_of (transitions (?h1 f)) s = map_of (transitions (h f)) s" by simp
    moreover from s p have "s \<in> fst ` set (p # table)" by simp
    ultimately show "map_of (transitions (?h1 f)) s = None" using Cons.prems(3) by simp
  qed
  note ih = Cons.IH [OF ok nk1 none1]
  have unfold: "load_symbols f (p # table) (h, a) = load_symbols f table (?h1, a)"
    using p w1 by simp
  have mfresh: "map_of table symbol = None"
    using fresh by (simp add: map_of_eq_None_iff)
  show ?case
    unfolding unfold
  proof (intro conjI allI impI)
    show "snd (load_symbols f table (?h1, a)) = a" using ih by blast
  next
    fix x show "name (fst (load_symbols f table (?h1, a)) x) = name (h x)"
      using ih t2 by simp
  next
    fix x assume "x \<noteq> f"
    with ih have "fst (load_symbols f table (?h1, a)) x = ?h1 x" by blast
    with t3 [OF \<open>x \<noteq> f\<close>] show "fst (load_symbols f table (?h1, a)) x = h x" by simp
  next
    fix s
    from ih have e: "map_of (transitions (fst (load_symbols f table (?h1, a)) f)) s
        = (case map_of table s of None \<Rightarrow> map_of (transitions (?h1 f)) s | Some ts' \<Rightarrow> Some ts')"
      by blast
    show "map_of (transitions (fst (load_symbols f table (?h1, a)) f)) s
        = (case map_of (p # table) s of None \<Rightarrow> map_of (transitions (h f)) s | Some ts' \<Rightarrow> Some ts')"
    proof (cases "s = symbol")
      case True
      with e mfresh t5 p show ?thesis by simp
    next
      case False
      with e t4 [OF False] p show ?thesis by (simp split: option.splits)
    qed
  qed
qed

lemma name_keyed_inj:
  "name_keyed h a \<Longrightarrow> map_of (states a) k = Some i \<Longrightarrow> map_of (states a) k' = Some i \<Longrightarrow> k = k'"
  unfolding name_keyed_def by metis

lemma load_transitions_effect:
  assumes dk: "distinct (map fst L)"
    and nk: "name_keyed h a"
    and keys: "\<And>k. k \<in> fst ` set L \<Longrightarrow> map_of (states a) k \<noteq> None"
    and tabs: "\<And>k T. (k, T) \<in> set L \<Longrightarrow> table_ok a T"
    and empty: "\<And>k i. k \<in> fst ` set L \<Longrightarrow> map_of (states a) k = Some i \<Longrightarrow> transitions (h i) = []"
  shows "snd (load_transitions L (h, a)) = a
       \<and> (\<forall>x. name (fst (load_transitions L (h, a)) x) = name (h x))
       \<and> (\<forall>k T i. (k, T) \<in> set L \<and> map_of (states a) k = Some i \<longrightarrow>
             map_of (transitions (fst (load_transitions L (h, a)) i)) = map_of T)
       \<and> (\<forall>i. (\<forall>k. k \<in> fst ` set L \<longrightarrow> map_of (states a) k \<noteq> Some i) \<longrightarrow>
             fst (load_transitions L (h, a)) i = h i)"
  using assms
proof (induction L arbitrary: h)
  case Nil
  show ?case by simp
next
  case (Cons p L)
  obtain k T where p: "p = (k, T)" by (cases p)
  from Cons.prems(3) [of k] p obtain i where i: "map_of (states a) k = Some i" by auto
  have hi: "transitions (h i) = []" using Cons.prems(5) [of k i] p i by simp
  have tok: "table_ok a T" using Cons.prems(4) [of k T] p by simp
  let ?h1 = "fst (load_symbols i T (h, a))"
  have pre: "\<And>s. s \<in> fst ` set T \<Longrightarrow> map_of (transitions (h i)) s = None"
    by (simp add: hi)
  from load_symbols_effect [OF tok Cons.prems(2) pre]
  have s1: "snd (load_symbols i T (h, a)) = a"
    and s2: "\<And>x. name (?h1 x) = name (h x)"
    and s3: "\<And>x. x \<noteq> i \<Longrightarrow> ?h1 x = h x"
    and s4: "\<And>s. map_of (transitions (?h1 i)) s
        = (case map_of T s of None \<Rightarrow> map_of (transitions (h i)) s | Some ts \<Rightarrow> Some ts)"
    by simp_all
  have tbl1: "map_of (transitions (?h1 i)) = map_of T"
  proof
    fix s show "map_of (transitions (?h1 i)) s = map_of T s"
      by (simp add: s4 hi split: option.splits)
  qed
  have w1: "load_symbols i T (h, a) = (?h1, a)"
    using s1 by (metis prod.collapse)
  have unfold: "load_transitions (p # L) (h, a) = load_transitions L (?h1, a)"
    using p i w1 by simp
  have knew: "k \<notin> fst ` set L" using Cons.prems(1) p by simp
  have noti: "\<And>k'. k' \<in> fst ` set L \<Longrightarrow> map_of (states a) k' \<noteq> Some i"
  proof
    fix k' assume k': "k' \<in> fst ` set L" and "map_of (states a) k' = Some i"
    with i Cons.prems(2) have "k = k'" by (metis name_keyed_inj)
    with k' knew show False by simp
  qed
  have dk1: "distinct (map fst L)" using Cons.prems(1) by simp
  have nk1: "name_keyed ?h1 a" using Cons.prems(2) s2 by (simp add: name_keyed_def)
  have keys1: "\<And>k'. k' \<in> fst ` set L \<Longrightarrow> map_of (states a) k' \<noteq> None"
  proof -
    fix k' assume "k' \<in> fst ` set L"
    then have "k' \<in> fst ` set (p # L)" by auto
    then show "map_of (states a) k' \<noteq> None" by (rule Cons.prems(3))
  qed
  have tabs1: "\<And>k' T'. (k', T') \<in> set L \<Longrightarrow> table_ok a T'"
  proof -
    fix k' T' assume "(k', T') \<in> set L"
    then have "(k', T') \<in> set (p # L)" by simp
    then show "table_ok a T'" by (rule Cons.prems(4))
  qed
  have empty1: "\<And>k' j. k' \<in> fst ` set L \<Longrightarrow> map_of (states a) k' = Some j \<Longrightarrow> transitions (?h1 j) = []"
  proof -
    fix k' j assume k': "k' \<in> fst ` set L" and j: "map_of (states a) k' = Some j"
    with noti have "j \<noteq> i" by auto
    then have "?h1 j = h j" by (rule s3)
    moreover from k' j have "transitions (h j) = []" using Cons.prems(5) [of k' j] by simp
    ultimately show "transitions (?h1 j) = []" by simp
  qed
  have ih: "snd (load_transitions L (?h1, a)) = a
       \<and> (\<forall>x. name (fst (load_transitions L (?h1, a)) x) = name (?h1 x))
       \<and> (\<forall>k T i. (k, T) \<in> set L \<and> map_of (states a) k = Some i \<longrightarrow>
             map_of (transitions (fst (load_transitions L (?h1, a)) i)) = map_of T)
       \<and> (\<forall>i. (\<forall>k. k \<in> fst ` set L \<longrightarrow> map_of (states a) k \<noteq> Some i) \<longrightarrow>
             fst (load_transitions L (?h1, a)) i = ?h1 i)"
  proof (rule Cons.IH)
    show "distinct (map fst L)" by (rule dk1)
    show "name_keyed ?h1 a" by (rule nk1)
  next
    fix k' assume "k' \<in> fst ` set L"
    then show "map_of (states a) k' \<noteq> None" by (rule keys1)
  next
    fix k' T' assume "(k', T') \<in> set L"
    then show "table_ok a T'" by (rule tabs1)
  next
    fix k' j assume "k' \<in> fst ` set L" and "map_of (states a) k' = Some j"
    then show "transitions (?h1 j) = []" by (rule empty1)
  qed
  have r1: "snd (load_transitions L (?h1, a)) = a"
    and r2: "\<And>x. name (fst (load_transitions L (?h1, a)) x) = name (?h1 x)"
    and r3: "\<And>k' T' j. (k', T') \<in> set L \<Longrightarrow> map_of (states a) k' = Some j \<Longrightarrow>
             map_of (transitions (fst (load_transitions L (?h1, a)) j)) = map_of T'"
    and r4: "\<And>j. (\<And>k'. k' \<in> fst ` set L \<Longrightarrow> map_of (states a) k' \<noteq> Some j) \<Longrightarrow>
             fst (load_transitions L (?h1, a)) j = ?h1 j"
    using ih by blast+
  show ?case
    unfolding unfold
  proof (intro conjI allI impI)
    show "snd (load_transitions L (?h1, a)) = a" by (rule r1)
  next
    fix x show "name (fst (load_transitions L (?h1, a)) x) = name (h x)"
      by (simp add: r2 s2)
  next
    fix k' T' j
    assume asm: "(k', T') \<in> set (p # L) \<and> map_of (states a) k' = Some j"
    show "map_of (transitions (fst (load_transitions L (?h1, a)) j)) = map_of T'"
    proof (cases "(k', T') = (k, T)")
      case True
      with asm i have "j = i" by simp
      moreover have "fst (load_transitions L (?h1, a)) i = ?h1 i"
        using noti by (intro r4) 
      ultimately show ?thesis using tbl1 True by simp
    next
      case False
      with asm p have "(k', T') \<in> set L" by auto
      with asm show ?thesis by (intro r3) simp_all
    qed
  next
    fix j
    assume asm: "\<forall>k'. k' \<in> fst ` set (p # L) \<longrightarrow> map_of (states a) k' \<noteq> Some j"
    with p i have "j \<noteq> i" by auto
    moreover have "fst (load_transitions L (?h1, a)) j = ?h1 j"
      using asm by (intro r4) simp
    ultimately show "fst (load_transitions L (?h1, a)) j = h j"
      using s3 by simp
  qed
qed

lemma dfa_loop_entry:
  "dfa_loop h a q (c # cs) =
     (case spec_transition_entry h a q c of
        None \<Rightarrow> Inr False
      | Some [] \<Rightarrow> Inl IndexError
      | Some (t # ts) \<Rightarrow> dfa_loop h a t cs)"
  by (simp add: spec_transition_entry_def split: option.splits)

lemma dfa_loop_cong:
  assumes "\<And>q c. spec_transition_entry h a q c = spec_transition_entry h' a' q c"
    and "accept_states a = accept_states a'"
  shows "dfa_loop h a q s = dfa_loop h' a' q s"
proof (induction s arbitrary: q)
  case Nil
  show ?case by (simp add: assms(2))
next
  case (Cons c cs)
  show ?case
    unfolding dfa_loop_entry assms(1) [of q c]
    by (simp add: Cons.IH split: option.splits list.splits)
qed

lemma apply_op_is_dfa [simp]: "is_dfa (snd (apply_op w x)) = is_dfa (snd w)"
  by (cases w; cases x) (simp_all add: add_state_def set_start_def set_accept_def Let_def)

lemma foldl_apply_op_is_dfa: "is_dfa (snd (foldl apply_op w ops)) = is_dfa (snd w)"
  by (induction ops arbitrary: w) simp_all

lemma build_is_dfa: "is_dfa (snd (build names d ops)) = d"
  by (simp add: build_def foldl_apply_op_is_dfa Automaton_init_def)

lemma key_iff: "(map_of al k \<noteq> None) = (k \<in> set (map fst al))"
  by (simp add: map_of_eq_None_iff)

lemma built_table_ok:
  assumes inv: "built_inv h a" and nm: "names_mapped h a"
    and r: "map_of (states a) k = Some r"
    and dom: "\<And>t. map_of (states a) t \<noteq> None \<Longrightarrow> map_of (states a') t \<noteq> None"
  shows "table_ok a' (transitions (h r))"
  unfolding table_ok_def
proof (intro conjI allI impI)
  from inv show d: "distinct (map fst (transitions (h r)))"
    by (simp add: built_inv_def distinct_keys_def)
  fix symbol ts assume "(symbol, ts) \<in> set (transitions (h r))"
  with d have look: "map_of (transitions (h r)) symbol = Some ts" by simp
  with inv show "ts \<noteq> []" unfolding built_inv_def nonempty_targets_def by blast
  from look inv show "distinct ts" unfolding built_inv_def no_duplicate_targets_def by blast
  show "\<forall>t \<in> set ts. map_of (states a') t \<noteq> None"
  proof
    fix t assume "t \<in> set ts"
    with nm r look have "map_of (states a) t \<noteq> None" unfolding names_mapped_def by blast
    then show "map_of (states a') t \<noteq> None" by (rule dom)
  qed
qed

lemma loaded_base_name_keyed: "loaded_base ns w \<Longrightarrow> name_keyed (fst w) (snd w)"
  unfolding loaded_base_def name_keyed_def
  by (metis item_names_def)

lemma loaded_base_key:
  "loaded_base ns w \<Longrightarrow> (map_of (states (snd w)) k \<noteq> None) = (k \<in> set ns)"
  unfolding loaded_base_def by (metis nth_mem option.exhaust)

lemma roundtrip_entries:
  assumes inv: "built_inv h a" and nm: "names_mapped h a"
    and base: "loaded_base (map fst (states a)) (h2, a2)"
  shows "spec_transition_entry
           (fst (load_transitions (map (\<lambda>(k, s). (k, transitions (h s))) (states a)) (h2, a2)))
           (snd (load_transitions (map (\<lambda>(k, s). (k, transitions (h s))) (states a)) (h2, a2))) q c
       = spec_transition_entry h a q c"
    and "snd (load_transitions (map (\<lambda>(k, s). (k, transitions (h s))) (states a)) (h2, a2)) = a2"
proof -
  let ?ns = "map fst (states a)"
  let ?L = "map (\<lambda>(k, s). (k, transitions (h s))) (states a)"
  have keysL: "map fst ?L = ?ns" by (simp add: case_prod_beta comp_def)
  have key2: "\<And>k. (map_of (states a2) k \<noteq> None) = (k \<in> set ?ns)"
    using loaded_base_key [OF base] by simp
  have key1: "\<And>k. (map_of (states a) k \<noteq> None) = (k \<in> set ?ns)"
    by (rule key_iff)
  have dom: "\<And>t. map_of (states a) t \<noteq> None \<Longrightarrow> map_of (states a2) t \<noteq> None"
  proof -
    fix t assume "map_of (states a) t \<noteq> None"
    then have "t \<in> set ?ns" using key1 [of t] by blast
    then show "map_of (states a2) t \<noteq> None" using key2 [of t] by blast
  qed
  have dstates: "distinct ?ns" using inv by (simp add: built_inv_def distinct_keys_def)
  have eff: "snd (load_transitions ?L (h2, a2)) = a2
       \<and> (\<forall>x. name (fst (load_transitions ?L (h2, a2)) x) = name (h2 x))
       \<and> (\<forall>k T i. (k, T) \<in> set ?L \<and> map_of (states a2) k = Some i \<longrightarrow>
             map_of (transitions (fst (load_transitions ?L (h2, a2)) i)) = map_of T)
       \<and> (\<forall>i. (\<forall>k. k \<in> fst ` set ?L \<longrightarrow> map_of (states a2) k \<noteq> Some i) \<longrightarrow>
             fst (load_transitions ?L (h2, a2)) i = h2 i)"
  proof (rule load_transitions_effect)
    show "distinct (map fst ?L)" unfolding keysL by (rule dstates)
    show "name_keyed h2 a2" using loaded_base_name_keyed [OF base] by simp
  next
    fix k assume "k \<in> fst ` set ?L"
    then have "k \<in> set (map fst ?L)" by (simp only: set_map)
    then have "k \<in> set ?ns" unfolding keysL .
    then show "map_of (states a2) k \<noteq> None" using key2 [of k] by blast
  next
    fix k T assume "(k, T) \<in> set ?L"
    then obtain r where kr: "(k, r) \<in> set (states a)" and T: "T = transitions (h r)" by auto
    from kr dstates have "map_of (states a) k = Some r" by simp
    from built_table_ok [OF inv nm this dom] T show "table_ok a2 T" by simp
  next
    fix k i assume "k \<in> fst ` set ?L" and "map_of (states a2) k = Some i"
    from base show "transitions (h2 i) = []" by (simp add: loaded_base_def)
  qed
  then show "snd (load_transitions ?L (h2, a2)) = a2" by blast
  let ?h3 = "fst (load_transitions ?L (h2, a2))"
  show "spec_transition_entry ?h3 (snd (load_transitions ?L (h2, a2))) q c
       = spec_transition_entry h a q c"
  proof (cases "map_of (states a) q")
    case None
    then have "q \<notin> set ?ns" using key1 [of q] by simp
    then have "map_of (states a2) q = None" using key2 [of q] by simp
    with None eff show ?thesis by (simp add: spec_transition_entry_def)
  next
    case (Some r)
    then have "(q, r) \<in> set (states a)" by (rule map_of_SomeD)
    then have inL: "(q, transitions (h r)) \<in> set ?L" by force
    from Some have "q \<in> set ?ns" using key1 [of q] by simp
    then obtain i where i: "map_of (states a2) q = Some i" using key2 [of q] by auto
    with inL eff have "map_of (transitions (?h3 i)) = map_of (transitions (h r))" by blast
    with Some i eff show ?thesis by (simp add: spec_transition_entry_def)
  qed
qed

lemma save_load_roundtrip:
  assumes built: "build names True ops = (h, a)"
    and nm: "names_mapped h a"
    and acc: "set accept_order = accept_states a"
  shows "\<exists>h' a'. load_automaton (save_automaton h a accept_order) = Inr (h', a')
           \<and> (\<forall>s. simulate h' a' s = simulate h a s)
           \<and> accept_states a' = accept_states a \<and> is_dfa a'"
proof -
  let ?ns = "map fst (states a)"
  let ?L = "map (\<lambda>(k, s). (k, transitions (h s))) (states a)"
  from build_inv [of names True ops] built have inv: "built_inv h a" by simp
  from build_is_dfa [of names True ops] built have dfa: "is_dfa a" by simp
  have sv: "saved_states (save_automaton h a accept_order) = ?ns"
    "saved_start (save_automaton h a accept_order) = start_state a"
    "saved_accept (save_automaton h a accept_order) = accept_order"
    by (simp_all add: save_automaton_def)
  have svt: "saved_transitions (save_automaton h a accept_order) = ?L"
    using inv by (intro saved_transitions_eq) (simp_all add: built_inv_def distinct_keys_def)
  have key1: "\<And>k. (map_of (states a) k \<noteq> None) = (k \<in> set ?ns)"
    by (rule key_iff)
  from load_states_base [of ?ns]
  have b0: "loaded_base ?ns (load_states ?ns)" and s0: "start_state (snd (load_states ?ns)) = None"
    and a0: "accept_states (snd (load_states ?ns)) = {}"
    by simp_all
  have st_mapped: "truthy (start_state a) \<Longrightarrow> the (start_state a) \<in> set ?ns"
    using nm key1 by (simp add: names_mapped_def)
  from load_start_ok [OF b0 s0 st_mapped]
  obtain w1 where w1: "load_start (start_state a) (load_states ?ns) = Inr w1"
    and b1: "loaded_base ?ns w1"
    and s1: "start_state (snd w1) = (if truthy (start_state a) then start_state a else None)"
    and a1: "accept_states (snd w1) = {}"
    using a0 by auto
  have acc_mapped: "set accept_order \<subseteq> set ?ns"
  proof
    fix n assume "n \<in> set accept_order"
    with acc nm have "map_of (states a) n \<noteq> None" by (simp add: names_mapped_def)
    then show "n \<in> set ?ns" using key1 by simp
  qed
  from load_accept_ok [OF b1 acc_mapped]
  obtain w2 where w2: "load_accept accept_order w1 = Inr w2"
    and b2: "loaded_base ?ns w2"
    and s2: "start_state (snd w2) = start_state (snd w1)"
    and a2: "accept_states (snd w2) = accept_states (snd w1) \<union> set accept_order"
    by blast
  obtain h2 a2' where w2p: "w2 = (h2, a2')" by (cases w2)
  let ?w3 = "load_transitions ?L (h2, a2')"
  from b2 w2p have b2': "loaded_base ?ns (h2, a2')" by simp
  note ent = roundtrip_entries [OF inv nm b2']
  have loaded: "load_automaton (save_automaton h a accept_order) = Inr (fst ?w3, snd ?w3)"
    by (simp add: load_automaton_def sv svt w1 w2 w2p)
  have acc3: "accept_states (snd ?w3) = accept_states a"
    using ent(2) a2 a1 acc w2p by simp
  have dfa3: "is_dfa (snd ?w3)"
    using ent(2) b2' by (simp add: loaded_base_def)
  have st3: "start_state (snd ?w3) = (if truthy (start_state a) then start_state a else None)"
    using ent(2) s2 s1 w2p by simp
  have sim: "simulate (fst ?w3) (snd ?w3) s = simulate h a s" for s
  proof (cases "truthy (start_state a)")
    case False
    with st3 show ?thesis by (simp add: simulate_def truthy_def)
  next
    case True
    with st3 have st: "start_state (snd ?w3) = start_state a" by simp
    have "dfa_loop (fst ?w3) (snd ?w3) (the (start_state a)) s
        = dfa_loop h a (the (start_state a)) s"
      by (rule dfa_loop_cong) (simp_all add: ent(1) acc3)
    with True st dfa dfa3 show ?thesis by (simp add: simulate_def)
  qed
  from loaded sim acc3 dfa3 show ?thesis by blast
qed

lemmas load_defs =
  save_automaton_def load_automaton_def load_states_def load_start_def item_names_def
  simulate_loaded_def

text \<open>
  Claim C4, as amended. For every automaton the engine builds in DFA mode in which the
  start name (when set), every accept name and every transition target of a state of the
  mapping is a key of the state mapping, saving it (with the accept set listed in any
  order) and loading the record yields an automaton on which \<^verbatim>\<open>simulate\<close> returns, for
  every input string, what it returns on the saved automaton; loading never raises there.
  The loaded automaton is built from the record alone, on new state items.
\<close>

theorem save_load_simulate:
  "build names True ops = (h, a) \<Longrightarrow> names_mapped h a \<Longrightarrow> set accept_order = accept_states a \<Longrightarrow>
   simulate_loaded (save_automaton h a accept_order) s = Inr (simulate h a s)"
  using save_load_roundtrip [of names ops h a accept_order]
  by (auto simp: simulate_loaded_def)

theorem save_load_simulate_witness:
  "names_mapped (fst (build ex_names True ex_ops)) (snd (build ex_names True ex_ops))
   \<and> set [''q1''] = accept_states (snd (build ex_names True ex_ops))
   \<and> simulate_loaded
        (save_automaton (fst (build ex_names True ex_ops)) (snd (build ex_names True ex_ops)) [''q1''])
        ''ab''
       = Inr (simulate (fst (build ex_names True ex_ops)) (snd (build ex_names True ex_ops)) ''ab'')
   \<and> simulate (fst (build ex_names True ex_ops)) (snd (build ex_names True ex_ops)) ''ab'' = Inr True"
proof -
  let ?h = "fst (build ex_names True ex_ops)" and ?a = "snd (build ex_names True ex_ops)"
  have 1: "names_mapped ?h ?a"
    unfolding names_mapped_def by (auto simp: engine_defs split: if_splits)
  have 2: "set [''q1''] = accept_states ?a" by (simp add: engine_defs)
  have 3: "simulate ?h ?a ''ab'' = Inr True" by (simp add: engine_defs)
  from save_load_simulate [OF _ 1 2, of ex_names ex_ops "''ab''"] 1 2 3 show ?thesis by simp
qed

text \<open>
  The claim as stated fails outside these conditions. The record has no field for the
  mode and \<^verbatim>\<open>load_automaton\<close> always makes a DFA: an NFA that accepts \<open>a\<close> through its
  second target rejects it after loading. The loader skips targets that are not keys: a
  DFA whose first target for \<open>a\<close> was never added rejects \<open>a\<close>, and accepts it after
  loading. And the loader raises \<^verbatim>\<open>KeyError\<close> on an accept name or a start name that is
  not a key.
\<close>

theorem save_load_not_identical:
  "simulate (fst (build ex_names False nfa_all_ops)) (snd (build ex_names False nfa_all_ops)) ''a''
     = Inr True
   \<and> simulate_loaded
        (save_automaton (fst (build ex_names False nfa_all_ops))
           (snd (build ex_names False nfa_all_ops)) [''q2'']) ''a''
     = Inr (Inr False)
   \<and> simulate (fst (build ex_names True dangling_first_ops))
        (snd (build ex_names True dangling_first_ops)) ''a''
     = Inr False
   \<and> simulate_loaded
        (save_automaton (fst (build ex_names True dangling_first_ops))
           (snd (build ex_names True dangling_first_ops)) [''q1'']) ''a''
     = Inr (Inr True)
   \<and> simulate (fst (build ex_names True unmapped_accept_ops))
        (snd (build ex_names True unmapped_accept_ops)) ''a''
     = Inr False
   \<and> simulate_loaded
        (save_automaton (fst (build ex_names True unmapped_accept_ops))
           (snd (build ex_names True unmapped_accept_ops)) [''q1'']) ''a''
     = Inl KeyError
   \<and> simulate (fst (build ex_names True [SetStart 0])) (snd (build ex_names True [SetStart 0])) ''a''
     = Inr False
   \<and> simulate_loaded
        (save_automaton (fst (build ex_names True [SetStart 0]))
           (snd (build ex_names True [SetStart 0])) []) ''a''
     = Inl KeyError"
  by (simp add: engine_defs load_defs nfa_all_ops_def dangling_first_ops_def
        unmapped_accept_ops_def upt_rec)

end
